theory Spec2Isabelle
  imports Main "HOL-Library.Word" "HOL-Library.Monad_Syntax"
begin

section \<open>The packet classifier: data model and operations\<close>

text \<open>
  The development follows the C++ sources function by function.  Each operation is
  modelled by its effect on the object it is called on, for one calling thread: a call
  starts when the call before it has returned.  The two read-write locks are part of the
  state.  A call that waits for a lock which nobody is left to release does not return;
  its value is \<open>None\<close>.  The logger calls and the \<open>std::mutex\<close> inside \<open>ReadWriteLock\<close>,
  which a single thread always finds free, are not part of the model, and memory
  allocation is taken to succeed.  Whatever the sources take from the C++ standard
  library or from floating point arithmetic is a field of the record \<open>stdlib\<close> and is
  passed to the operations that use it.
\<close>

subsection \<open>What the standard library provides\<close>

text \<open>
  \<^item> \<open>std_hash\<close> is \<open>std::hash<std::string>\<close> (implementation defined).
  \<^item> \<open>std_sort cmp xs\<close> is \<open>std::sort\<close> on a vector of pointers; a pointer into
    \<open>rules_by_id_\<close> is modelled by the key of the map node it points to.
  \<^item> \<open>bloom_params\<close> is what \<open>BloomFilter::calculateOptimalParams(10000, 0.01)\<close>
    computes in double precision (bit array size and number of hash functions).
\<close>

record stdlib =
  std_hash :: "string \<Rightarrow> 64 word"
  std_sort :: "(int \<Rightarrow> int \<Rightarrow> bool) \<Rightarrow> int list \<Rightarrow> int list"
  bloom_params :: "64 word \<times> int"

subsection \<open>Bloom filter (bloom\_filter.cpp)\<close>

record BloomFilter =
  bit_array_size :: "64 word"
  num_hash_functions :: int
  bit_array :: "bool list"
  current_insertions :: "64 word"

text \<open>The constructor \<open>BloomFilter(uint64_t size, int num_hashes)\<close>.\<close>

definition BloomFilter_sized :: "64 word \<Rightarrow> int \<Rightarrow> BloomFilter" where
  "BloomFilter_sized size_arg num_hashes =
     (let sz = (if size_arg = 0 then 1024 else size_arg);
          k = (if num_hashes \<le> 0 then 3 else num_hashes)
      in \<lparr>bit_array_size = sz, num_hash_functions = k,
          bit_array = replicate (unat sz) False, current_insertions = 0\<rparr>)"

text \<open>
  The constructor \<open>BloomFilter(uint64_t num_items, double false_positive_prob)\<close>, given
  the pair that \<open>calculateOptimalParams\<close> returned.
\<close>

definition BloomFilter_optimal :: "64 word \<times> int \<Rightarrow> BloomFilter" where
  "BloomFilter_optimal params =
     (let sz = (if fst params = 0 then 1024 else fst params)
      in \<lparr>bit_array_size = sz, num_hash_functions = snd params,
          bit_array = replicate (unat sz) False, current_insertions = 0\<rparr>)"

definition hashFunction1 :: "stdlib \<Rightarrow> string \<Rightarrow> 64 word" where
  "hashFunction1 lib data = std_hash lib data"

text \<open>DJB2 on 64-bit unsigned integers: \<open>hash * 33 + c\<close>, starting from 5381.\<close>

definition hashFunction2 :: "string \<Rightarrow> 64 word" where
  "hashFunction2 data =
     foldl (\<lambda>hash_val c. ((push_bit 5 hash_val) + hash_val) + of_char c) 5381 data"

definition hash_at :: "BloomFilter \<Rightarrow> 64 word \<Rightarrow> 64 word \<Rightarrow> nat \<Rightarrow> 64 word" where
  "hash_at bf h1 h2 i =
     (if i = 0 then h1 mod bit_array_size bf
      else if i = 1 \<and> num_hash_functions bf > 1 then h2 mod bit_array_size bf
      else (h1 + of_nat i * (h2 + of_nat i + 1)) mod bit_array_size bf)"

definition hash :: "stdlib \<Rightarrow> BloomFilter \<Rightarrow> string \<Rightarrow> 64 word list" where
  "hash lib bf data =
     (if num_hash_functions bf = 0 \<or> bit_array_size bf = 0 then []
      else
        let h1 = hashFunction1 lib data;
            h2 = (if num_hash_functions bf > 1 then hashFunction2 data else 0)
        in map (hash_at bf h1 h2) [0 ..< nat (num_hash_functions bf)])"

definition set_bits :: "bool list \<Rightarrow> 64 word list \<Rightarrow> bool list" where
  "set_bits bits hs = foldl (\<lambda>b h_val. b[unat h_val := True]) bits hs"

definition insert_item :: "stdlib \<Rightarrow> string \<Rightarrow> BloomFilter \<Rightarrow> BloomFilter" where
  "insert_item lib data bf =
     (if bit_array_size bf = 0 then bf
      else bf\<lparr>bit_array := set_bits (bit_array bf) (hash lib bf data),
              current_insertions := current_insertions bf + 1\<rparr>)"

definition possiblyContains :: "stdlib \<Rightarrow> BloomFilter \<Rightarrow> string \<Rightarrow> bool" where
  "possiblyContains lib bf data =
     (if bit_array_size bf = 0 then False
      else list_all (\<lambda>h_val. bit_array bf ! unat h_val) (hash lib bf data))"

definition insert_items :: "stdlib \<Rightarrow> string list \<Rightarrow> BloomFilter \<Rightarrow> BloomFilter" where
  "insert_items lib items bf = foldl (\<lambda>b x. insert_item lib x b) bf items"

text \<open>
  What the constructors establish and \<open>insert\<close> keeps: the vector has
  \<open>bit_array_size\<close> bits and the size is not zero.  Every index that \<open>hash\<close>
  returns is then inside the vector.
\<close>

definition bloom_wf :: "BloomFilter \<Rightarrow> bool" where
  "bloom_wf bf \<longleftrightarrow> bit_array_size bf \<noteq> 0 \<and> length (bit_array bf) = unat (bit_array_size bf)"

subsection \<open>Interval tree (interval\_tree.h, interval\_tree.cpp)\<close>

text \<open>
  Dereferencing an empty \<open>std::unique_ptr\<close> has no defined behaviour; the model stops
  there with the error \<open>NullDeref\<close>.
\<close>

datatype error = NullDeref

datatype Interval = Interval (low: int) (high: int) (data_id: int)

datatype IntervalNode =
  Null
  | Node (interval: Interval) (max_high: int) (left: IntervalNode) (right: IntervalNode)
      (height: int)

definition deref :: "'a option \<Rightarrow> error + 'a" where
  "deref p = (case p of None \<Rightarrow> Inl NullDeref | Some v \<Rightarrow> Inr v)"

fun getHeight :: "IntervalNode \<Rightarrow> int" where
  "getHeight Null = 0"
| "getHeight (Node iv mh l r h) = h"

fun updateNodeHeight :: "IntervalNode \<Rightarrow> IntervalNode" where
  "updateNodeHeight Null = Null"
| "updateNodeHeight (Node iv mh l r h) = Node iv mh l r (1 + max (getHeight l) (getHeight r))"

fun getBalanceFactor :: "IntervalNode \<Rightarrow> int" where
  "getBalanceFactor Null = 0"
| "getBalanceFactor (Node iv mh l r h) = getHeight l - getHeight r"

text \<open>\<open>IntervalNode::updateMaxHigh\<close>; it is only called on nodes that exist.\<close>

fun updateMaxHigh :: "IntervalNode \<Rightarrow> IntervalNode" where
  "updateMaxHigh Null = Null"
| "updateMaxHigh (Node iv mh l r h) =
     (let m0 = high iv;
          m1 = (case l of Null \<Rightarrow> m0 | Node liv lmh ll lr lh \<Rightarrow> max m0 lmh);
          m2 = (case r of Null \<Rightarrow> m1 | Node riv rmh rl rr rh \<Rightarrow> max m1 rmh)
      in Node iv m2 l r h)"

text \<open>
  The rotations read \<open>y->left\<close> (respectively \<open>x->right\<close>) without a check.  Height and
  \<open>max_high\<close> are separate fields, so updating both of the lower node first and then
  both of the upper node gives what the source's order gives.
\<close>

fun rotateRight :: "IntervalNode \<Rightarrow> error + IntervalNode" where
  "rotateRight (Node yiv ymh (Node xiv xmh xl xr xh) yr yh) =
     (let y = updateMaxHigh (updateNodeHeight (Node yiv ymh xr yr yh))
      in Inr (updateMaxHigh (updateNodeHeight (Node xiv xmh xl y xh))))"
| "rotateRight (Node yiv ymh Null yr yh) = Inl NullDeref"
| "rotateRight Null = Inl NullDeref"

fun rotateLeft :: "IntervalNode \<Rightarrow> error + IntervalNode" where
  "rotateLeft (Node xiv xmh xl (Node yiv ymh yl yr yh) xh) =
     (let x = updateMaxHigh (updateNodeHeight (Node xiv xmh xl yl xh))
      in Inr (updateMaxHigh (updateNodeHeight (Node yiv ymh x yr yh))))"
| "rotateLeft (Node xiv xmh xl Null xh) = Inl NullDeref"
| "rotateLeft Null = Inl NullDeref"

text \<open>
  The part of \<open>insertRecursive\<close> after the recursive call.  \<open>new_interval\<close> is the local
  \<open>std::unique_ptr\<close> of the caller, as the four balancing tests read it.
\<close>

definition insert_rebalance :: "IntervalNode \<Rightarrow> Interval option \<Rightarrow> error + IntervalNode" where
  "insert_rebalance node0 new_interval =
     (case updateMaxHigh (updateNodeHeight node0) of
        Null \<Rightarrow> Inl NullDeref
      | Node iv mh l r h \<Rightarrow>
         (let node = Node iv mh l r h; balance = getBalanceFactor node in
          if balance > 1 then
            (case deref new_interval of Inl e \<Rightarrow> Inl e | Inr ni \<Rightarrow>
             (case l of Null \<Rightarrow> Inl NullDeref | Node liv lmh ll lr lh \<Rightarrow>
                if low ni < low liv then rotateRight node
                else if low ni > low liv then
                  (case rotateLeft l of Inl e \<Rightarrow> Inl e
                   | Inr l' \<Rightarrow> rotateRight (Node iv mh l' r h))
                else Inr node))
          else if balance < -1 then
            (case deref new_interval of Inl e \<Rightarrow> Inl e | Inr ni \<Rightarrow>
             (case r of Null \<Rightarrow> Inl NullDeref | Node riv rmh rl rr rh \<Rightarrow>
                if low ni > low riv then rotateLeft node
                else if low ni < low riv then
                  (case rotateRight r of Inl e \<Rightarrow> Inl e
                   | Inr r' \<Rightarrow> rotateLeft (Node iv mh l r' h))
                else Inr node))
          else Inr node))"

text \<open>
  \<open>insertRecursive\<close>.  Each recursive call is
  \<open>insertRecursive(std::move(node->left), std::move(new_interval))\<close> with the second
  parameter taken by value: the call empties the caller's \<open>new_interval\<close>, so the
  balancing tests that follow get \<open>None\<close>.
\<close>

fun insertRecursive :: "IntervalNode \<Rightarrow> Interval \<Rightarrow> error + IntervalNode" where
  "insertRecursive Null new_interval =
     Inr (Node new_interval (high new_interval) Null Null 1)"
| "insertRecursive (Node iv mh l r h) new_interval =
     (if low new_interval < low iv then
        (case insertRecursive l new_interval of Inl e \<Rightarrow> Inl e
         | Inr l' \<Rightarrow> insert_rebalance (Node iv mh l' r h) None)
      else if low new_interval > low iv then
        (case insertRecursive r new_interval of Inl e \<Rightarrow> Inl e
         | Inr r' \<Rightarrow> insert_rebalance (Node iv mh l r' h) None)
      else if high new_interval < high iv then
        (case insertRecursive l new_interval of Inl e \<Rightarrow> Inl e
         | Inr l' \<Rightarrow> insert_rebalance (Node iv mh l' r h) None)
      else
        (case insertRecursive r new_interval of Inl e \<Rightarrow> Inl e
         | Inr r' \<Rightarrow> insert_rebalance (Node iv mh l r' h) None))"

text \<open>\<open>IntervalTree::insert(low, high, data_id)\<close>, on the root.\<close>

definition IntervalTree_insert :: "int \<Rightarrow> int \<Rightarrow> int \<Rightarrow> IntervalNode \<Rightarrow> error + IntervalNode" where
  "IntervalTree_insert lo hi d root =
     (if lo > hi then Inr root else insertRecursive root (Interval lo hi d))"

fun findMin :: "IntervalNode \<Rightarrow> IntervalNode" where
  "findMin Null = Null"
| "findMin (Node iv mh Null r h) = Node iv mh Null r h"
| "findMin (Node iv mh (Node liv lmh ll lr lh) r h) = findMin (Node liv lmh ll lr lh)"

definition remove_rebalance :: "IntervalNode \<Rightarrow> error + IntervalNode" where
  "remove_rebalance node0 =
     (case updateMaxHigh (updateNodeHeight node0) of
        Null \<Rightarrow> Inr Null
      | Node iv mh l r h \<Rightarrow>
         (let node = Node iv mh l r h; balance = getBalanceFactor node in
          if balance > 1 \<and> getBalanceFactor l \<ge> 0 then rotateRight node
          else if balance > 1 \<and> getBalanceFactor l < 0 then
            (case rotateLeft l of Inl e \<Rightarrow> Inl e
             | Inr l' \<Rightarrow> rotateRight (Node iv mh l' r h))
          else if balance < -1 \<and> getBalanceFactor r \<le> 0 then rotateLeft node
          else if balance < -1 \<and> getBalanceFactor r > 0 then
            (case rotateRight r of Inl e \<Rightarrow> Inl e
             | Inr r' \<Rightarrow> rotateLeft (Node iv mh l r' h))
          else Inr node))"

fun removeRecursive :: "IntervalNode \<Rightarrow> Interval \<Rightarrow> error + IntervalNode" where
  "removeRecursive Null target_interval = Inr Null"
| "removeRecursive (Node iv mh l r h) target_interval =
     (let target_is_less = (low target_interval < low iv
            \<or> (low target_interval = low iv \<and> high target_interval < high iv));
          target_is_greater = (low target_interval > low iv
            \<or> (low target_interval = low iv \<and> high target_interval > high iv))
      in
      if target_is_less then
        (case removeRecursive l target_interval of Inl e \<Rightarrow> Inl e
         | Inr l' \<Rightarrow> remove_rebalance (Node iv mh l' r h))
      else if target_is_greater then
        (case removeRecursive r target_interval of Inl e \<Rightarrow> Inl e
         | Inr r' \<Rightarrow> remove_rebalance (Node iv mh l r' h))
      else if low iv = low target_interval \<and> high iv = high target_interval
              \<and> data_id iv = data_id target_interval then
        (if l = Null \<or> r = Null then Inr (if l \<noteq> Null then l else r)
         else
           (case findMin r of
              Null \<Rightarrow> Inl NullDeref
            | Node miv mmh ml mr mhh \<Rightarrow>
               (case removeRecursive r miv of Inl e \<Rightarrow> Inl e
                | Inr r' \<Rightarrow> remove_rebalance (Node miv mh l r' h))))
      else remove_rebalance (Node iv mh l r h))"

text \<open>\<open>IntervalTree::remove(low, high, data_id)\<close>: the returned flag and the new root.\<close>

definition IntervalTree_remove ::
  "int \<Rightarrow> int \<Rightarrow> int \<Rightarrow> IntervalNode \<Rightarrow> error + (bool \<times> IntervalNode)" where
  "IntervalTree_remove lo hi d root =
     (case removeRecursive root (Interval lo hi d) of
        Inl e \<Rightarrow> Inl e
      | Inr root' \<Rightarrow> Inr (True, root'))"

text \<open>The point query: \<open>findOverlappingRecursive(node, point, result)\<close>.\<close>

fun findOverlappingRecursive :: "IntervalNode \<Rightarrow> int \<Rightarrow> Interval list \<Rightarrow> Interval list" where
  "findOverlappingRecursive Null point result = result"
| "findOverlappingRecursive (Node iv mh l r h) point result =
     (let result1 = (if point \<ge> low iv \<and> point \<le> high iv then result @ [iv] else result);
          result2 = (if l \<noteq> Null \<and> max_high l \<ge> point
                     then findOverlappingRecursive l point result1 else result1)
      in
      if r \<noteq> Null \<and> point \<ge> low iv then findOverlappingRecursive r point result2
      else if r \<noteq> Null \<and> max_high r \<ge> point \<and> point > high iv
        then findOverlappingRecursive r point result2
      else result2)"

definition findOverlappingIntervals :: "IntervalNode \<Rightarrow> int \<Rightarrow> Interval list" where
  "findOverlappingIntervals root point = findOverlappingRecursive root point []"

text \<open>A client of the tree: a sequence of calls on one \<open>IntervalTree\<close> object.\<close>

datatype tree_op = Insert int int int | Remove int int int

fun tree_step :: "tree_op \<Rightarrow> IntervalNode \<Rightarrow> error + IntervalNode" where
  "tree_step (Insert lo hi d) root = IntervalTree_insert lo hi d root"
| "tree_step (Remove lo hi d) root =
     (case IntervalTree_remove lo hi d root of Inl e \<Rightarrow> Inl e | Inr (b, root') \<Rightarrow> Inr root')"

fun tree_run :: "tree_op list \<Rightarrow> IntervalNode \<Rightarrow> error + IntervalNode" where
  "tree_run [] root = Inr root"
| "tree_run (op # ops) root =
     (case tree_step op root of Inl e \<Rightarrow> Inl e | Inr root' \<Rightarrow> tree_run ops root')"

text \<open>Every node that the operations build has a stored height of at least 1.\<close>

fun heights_pos :: "IntervalNode \<Rightarrow> bool" where
  "heights_pos Null = True"
| "heights_pos (Node iv mh l r h) = (h \<ge> 1 \<and> heights_pos l \<and> heights_pos r)"

text \<open>
  The intervals a tree stores, and what the point query relies on: every interval of a
  right subtree starts at or after the node's interval, and \<open>max_high\<close> bounds every
  \<open>high\<close> of the subtree.
\<close>

fun intervals :: "IntervalNode \<Rightarrow> Interval set" where
  "intervals Null = {}"
| "intervals (Node iv mh l r h) = insert iv (intervals l \<union> intervals r)"

fun tree_inv :: "IntervalNode \<Rightarrow> bool" where
  "tree_inv Null = True"
| "tree_inv (Node iv mh l r h) =
     ((\<forall>x \<in> intervals r. low iv \<le> low x)
      \<and> (\<forall>x \<in> intervals (Node iv mh l r h). high x \<le> mh)
      \<and> tree_inv l \<and> tree_inv r)"

definition contains_point :: "int \<Rightarrow> Interval \<Rightarrow> bool" where
  "contains_point q iv \<longleftrightarrow> low iv \<le> q \<and> q \<le> high iv"

text \<open>The intervals that a sequence of \<open>insert\<close> calls was to store.\<close>

fun inserted_intervals :: "tree_op list \<Rightarrow> Interval set" where
  "inserted_intervals [] = {}"
| "inserted_intervals (Insert lo hi d # ops) = (if lo > hi then {} else {Interval lo hi d}) \<union> inserted_intervals ops"
| "inserted_intervals (Remove lo hi d # ops) = inserted_intervals ops"

fun only_inserts :: "tree_op list \<Rightarrow> bool" where
  "only_inserts [] = True"
| "only_inserts (Insert lo hi d # ops) = only_inserts ops"
| "only_inserts (Remove lo hi d # ops) = False"

subsection \<open>Headers, filters, rules (packet\_classifier.h)\<close>

record PacketHeader =
  source_ip :: "32 word"
  dest_ip :: "32 word"
  source_port :: "16 word"
  dest_port :: "16 word"
  protocol :: "8 word"

record PacketFilter =
  source_ip_prefix :: string
  dest_ip_prefix :: string
  source_port_low :: "16 word"
  source_port_high :: "16 word"
  dest_port_low :: "16 word"
  dest_port_high :: "16 word"
  protocol :: "8 word"

datatype ActionType = FORWARD | DROP | LOG | MIRROR

record ActionList =
  primary_action :: ActionType
  next_hop_id :: int
  log_identifier :: string

record ClassificationRule =
  rule_id :: int
  priority :: int
  rule_filter :: PacketFilter
  actions :: ActionList
  enabled :: bool
  match_count :: "64 word"
  last_match_time :: "64 word"

record ClassificationResult =
  matched :: bool
  matched_rule_id :: int
  actions :: ActionList

text \<open>The default member initialisers of \<open>ActionList\<close> and \<open>ClassificationResult\<close>.\<close>

definition ActionList_default :: ActionList where
  "ActionList_default = \<lparr>primary_action = DROP, next_hop_id = -1, log_identifier = []\<rparr>"

definition ClassificationResult_default :: ClassificationResult where
  "ClassificationResult_default =
     \<lparr>matched = False, matched_rule_id = -1, actions = ActionList_default\<rparr>"

text \<open>
  \<open>PacketFilter::matches\<close>: the protocol and the two port ranges.  The two blocks on
  \<open>source_ip_prefix\<close> and \<open>dest_ip_prefix\<close> are empty in the source, so the prefixes do
  not take part.
\<close>

definition matches :: "PacketFilter \<Rightarrow> PacketHeader \<Rightarrow> bool" where
  "matches f header =
     (if PacketFilter.protocol f \<noteq> 0 \<and> PacketFilter.protocol f \<noteq> PacketHeader.protocol header
        then False
      else if (source_port_low f \<noteq> 0 \<or> source_port_high f \<noteq> 0)
          \<and> (source_port header < source_port_low f \<or> source_port header > source_port_high f)
        then False
      else if (dest_port_low f \<noteq> 0 \<or> dest_port_high f \<noteq> 0)
          \<and> (dest_port header < dest_port_low f \<or> dest_port header > dest_port_high f)
        then False
      else True)"

text \<open>Decimal output of an unsigned number, as \<open>operator<<\<close> and \<open>std::to_string\<close> give it.\<close>

function to_string :: "nat \<Rightarrow> string" where
  "to_string n =
     (if n < 10 then [char_of (48 + n)]
      else to_string (n div 10) @ [char_of (48 + n mod 10)])"
  by pat_completeness auto
termination
  by (relation "measure id") auto

declare to_string.simps [simp del]

definition PacketHeader_toString :: "PacketHeader \<Rightarrow> string" where
  "PacketHeader_toString h =
     ''SrcIP: '' @ to_string (unat (source_ip h)) @ '', DstIP: '' @ to_string (unat (dest_ip h))
     @ '', SrcPort: '' @ to_string (unat (source_port h))
     @ '', DstPort: '' @ to_string (unat (dest_port h))
     @ '', Proto: '' @ to_string (unat (PacketHeader.protocol h))"

definition PacketFilter_toString :: "PacketFilter \<Rightarrow> string" where
  "PacketFilter_toString f =
     ''SrcIP_Pfx: '' @ (if source_ip_prefix f = [] then ''any'' else source_ip_prefix f)
     @ '', DstIP_Pfx: '' @ (if dest_ip_prefix f = [] then ''any'' else dest_ip_prefix f)
     @ '', SrcPort: '' @ (if source_port_low f = 0 \<and> source_port_high f = 0 then ''any''
          else to_string (unat (source_port_low f)) @ ''-'' @ to_string (unat (source_port_high f)))
     @ '', DstPort: '' @ (if dest_port_low f = 0 \<and> dest_port_high f = 0 then ''any''
          else to_string (unat (dest_port_low f)) @ ''-'' @ to_string (unat (dest_port_high f)))
     @ '', Proto: '' @ (if PacketFilter.protocol f = 0 then ''any''
          else to_string (unat (PacketFilter.protocol f)))"

subsection \<open>The read-write lock (threading.cpp)\<close>

text \<open>
  \<open>std::thread::id\<close>: \<open>no_thread\<close> is the value of a default-constructed id.  The model
  follows one calling thread; \<open>this_thread_get_id\<close> is its id.
\<close>

datatype thread_id = no_thread | thread nat

definition this_thread_get_id :: thread_id where
  "this_thread_get_id = thread 0"

text \<open>
  The members that the constructor in threading.cpp initialises: the three that
  threading.h declares, and \<open>writer_thread_id_\<close> and \<open>recursive_write_count_\<close>, which
  \<open>writeLock\<close> and \<open>writeUnlock\<close> use as well.
\<close>

record ReadWriteLock =
  active_readers :: int
  waiting_writers :: int
  writer_active :: bool
  writer_thread_id :: thread_id
  recursive_write_count :: int

definition ReadWriteLock_new :: ReadWriteLock where
  "ReadWriteLock_new =
     \<lparr>active_readers = 0, waiting_writers = 0, writer_active = False,
      writer_thread_id = no_thread, recursive_write_count = 0\<rparr>"

text \<open>
  \<open>cv.wait(lock, pred)\<close> is \<open>while (!pred()) wait(lock);\<close>.  Only another thread could
  change the fields of the lock while this one waits, and the model has no other
  thread: every round of the loop finds the fields as they were.  A wait that never
  ends is the value \<open>None\<close>.
\<close>

partial_function (option) cv_wait ::
  "(ReadWriteLock \<Rightarrow> bool) \<Rightarrow> ReadWriteLock \<Rightarrow> ReadWriteLock option" where
  "cv_wait pred l = (if pred l then Some l else cv_wait pred l)"

definition readLock :: "ReadWriteLock \<Rightarrow> ReadWriteLock option" where
  "readLock l =
     do {
       l1 \<leftarrow> cv_wait (\<lambda>l. \<not> writer_active l \<and> waiting_writers l = 0) l;
       Some (l1\<lparr>active_readers := active_readers l1 + 1\<rparr>)
     }"

definition readUnlock :: "ReadWriteLock \<Rightarrow> ReadWriteLock" where
  "readUnlock l = l\<lparr>active_readers := active_readers l - 1\<rparr>"

definition writeLock :: "ReadWriteLock \<Rightarrow> ReadWriteLock option" where
  "writeLock l =
     (let current_tid = this_thread_get_id in
      if writer_active l \<and> writer_thread_id l = current_tid
      then Some (l\<lparr>recursive_write_count := recursive_write_count l + 1\<rparr>)
      else
        do {
          l1 \<leftarrow> cv_wait (\<lambda>l. \<not> writer_active l \<and> active_readers l = 0)
                 (l\<lparr>waiting_writers := waiting_writers l + 1\<rparr>);
          Some (l1\<lparr>waiting_writers := waiting_writers l1 - 1, writer_active := True,
                   writer_thread_id := current_tid, recursive_write_count := 1\<rparr>)
        })"

definition writeUnlock :: "ReadWriteLock \<Rightarrow> ReadWriteLock" where
  "writeUnlock l =
     (if \<not> writer_active l \<or> writer_thread_id l \<noteq> this_thread_get_id then l
      else
        let l1 = l\<lparr>recursive_write_count := recursive_write_count l - 1\<rparr> in
        if recursive_write_count l1 = 0
        then l1\<lparr>writer_active := False, writer_thread_id := no_thread\<rparr>
        else l1)"

subsection \<open>The rule store (rule\_manager.h, RuleManager in threading.cpp)\<close>

text \<open>
  \<open>std::map\<close> from \<open>int\<close> to \<open>ClassificationRule\<close> is a list of pairs kept in ascending key order,
  which is the order its iterators walk.
\<close>

type_synonym rule_map = "(int \<times> ClassificationRule) list"

fun map_emplace :: "int \<Rightarrow> ClassificationRule \<Rightarrow> rule_map \<Rightarrow> rule_map \<times> bool" where
  "map_emplace k v [] = ([(k, v)], True)"
| "map_emplace k v ((k', v') # m) =
     (if k < k' then ((k, v) # (k', v') # m, True)
      else if k = k' then ((k', v') # m, False)
      else (case map_emplace k v m of (m', inserted) \<Rightarrow> ((k', v') # m', inserted)))"

definition map_erase :: "int \<Rightarrow> rule_map \<Rightarrow> rule_map \<times> nat" where
  "map_erase k m = (filter (\<lambda>kv. fst kv \<noteq> k) m, length (filter (\<lambda>kv. fst kv = k) m))"

text \<open>Assignment through an iterator or a pointer to the node with key \<open>k\<close>.\<close>

definition map_assign :: "int \<Rightarrow> ClassificationRule \<Rightarrow> rule_map \<Rightarrow> rule_map" where
  "map_assign k v m = map (\<lambda>kv. if fst kv = k then (k, v) else kv) m"

record RuleManager =
  rules_by_id :: rule_map
  rules_by_priority_cache :: "int list"
  rw_lock :: ReadWriteLock

definition RuleManager_new :: RuleManager where
  "RuleManager_new =
     \<lparr>rules_by_id = [], rules_by_priority_cache = [], rw_lock = ReadWriteLock_new\<rparr>"

text \<open>
  \<open>ReadLockGuard lock(rw_lock_)\<close> and \<open>WriteLockGuard lock(rw_lock_)\<close> as the first
  statement of a member function: the constructor takes the lock, \<open>body\<close> is the rest of
  the function, and the destructor releases the lock on every path that returns.
\<close>

definition rw_ReadLockGuard ::
  "(RuleManager \<Rightarrow> ('a \<times> RuleManager) option) \<Rightarrow> RuleManager \<Rightarrow> ('a \<times> RuleManager) option" where
  "rw_ReadLockGuard body rm =
     do {
       l \<leftarrow> readLock (rw_lock rm);
       (result, rm1) \<leftarrow> body (rm\<lparr>rw_lock := l\<rparr>);
       Some (result, rm1\<lparr>rw_lock := readUnlock (rw_lock rm1)\<rparr>)
     }"

definition rw_WriteLockGuard ::
  "(RuleManager \<Rightarrow> ('a \<times> RuleManager) option) \<Rightarrow> RuleManager \<Rightarrow> ('a \<times> RuleManager) option" where
  "rw_WriteLockGuard body rm =
     do {
       l \<leftarrow> writeLock (rw_lock rm);
       (result, rm1) \<leftarrow> body (rm\<lparr>rw_lock := l\<rparr>);
       Some (result, rm1\<lparr>rw_lock := writeUnlock (rw_lock rm1)\<rparr>)
     }"

text \<open>
  What a pointer into \<open>rules_by_id_\<close> leads to; a pointer is modelled by the key of the
  map node it points to.
\<close>

definition rule_at :: "RuleManager \<Rightarrow> int \<Rightarrow> ClassificationRule option" where
  "rule_at rm p = map_of (rules_by_id rm) p"

definition priority_at :: "rule_map \<Rightarrow> int \<Rightarrow> int" where
  "priority_at m p = (case map_of m p of Some r \<Rightarrow> priority r | None \<Rightarrow> 0)"

text \<open>\<open>rebuildPriorityCache\<close> takes no lock: its callers hold the write lock.\<close>

definition rebuildPriorityCache :: "stdlib \<Rightarrow> RuleManager \<Rightarrow> RuleManager" where
  "rebuildPriorityCache lib rm =
     rm\<lparr>rules_by_priority_cache :=
          std_sort lib (\<lambda>a b. priority_at (rules_by_id rm) a > priority_at (rules_by_id rm) b)
            (map fst (rules_by_id rm))\<rparr>"

text \<open>\<open>detectConflict\<close>: a read guard on \<open>rw_lock_\<close>, a log line, \<open>return false\<close>.\<close>

definition detectConflict :: "ClassificationRule \<Rightarrow> RuleManager \<Rightarrow> (bool \<times> RuleManager) option" where
  "detectConflict rule = rw_ReadLockGuard (\<lambda>rm. Some (False, rm))"

definition RuleManager_addRule ::
  "stdlib \<Rightarrow> ClassificationRule \<Rightarrow> RuleManager \<Rightarrow> (bool \<times> RuleManager) option" where
  "RuleManager_addRule lib rule =
     rw_WriteLockGuard (\<lambda>rm.
       if map_of (rules_by_id rm) (rule_id rule) \<noteq> None then Some (False, rm)
       else
         do {
           (conflict, rm1) \<leftarrow> detectConflict rule rm;
           if conflict then Some (False, rm1)
           else
             (case map_emplace (rule_id rule) rule (rules_by_id rm1) of
                (m', inserted) \<Rightarrow>
                  if inserted then Some (True, rebuildPriorityCache lib (rm1\<lparr>rules_by_id := m'\<rparr>))
                  else Some (False, rm1\<lparr>rules_by_id := m'\<rparr>))
         })"

definition RuleManager_deleteRule ::
  "stdlib \<Rightarrow> int \<Rightarrow> RuleManager \<Rightarrow> (bool \<times> RuleManager) option" where
  "RuleManager_deleteRule lib rid =
     rw_WriteLockGuard (\<lambda>rm.
       case map_erase rid (rules_by_id rm) of
         (m', n) \<Rightarrow>
           if n > 0 then Some (True, rebuildPriorityCache lib (rm\<lparr>rules_by_id := m'\<rparr>))
           else Some (False, rm\<lparr>rules_by_id := m'\<rparr>))"

definition RuleManager_modifyRule ::
  "stdlib \<Rightarrow> int \<Rightarrow> ClassificationRule \<Rightarrow> RuleManager \<Rightarrow> (bool \<times> RuleManager) option" where
  "RuleManager_modifyRule lib rid new_rule_data =
     rw_WriteLockGuard (\<lambda>rm.
       case map_of (rules_by_id rm) rid of
         None \<Rightarrow> Some (False, rm)
       | Some old \<Rightarrow>
           do {
             (conflict, rm1) \<leftarrow> detectConflict (new_rule_data\<lparr>rule_id := rid\<rparr>) rm;
             if conflict then Some (False, rm1)
             else
               (let priority_changed = (priority old \<noteq> priority new_rule_data);
                    rm2 = rm1\<lparr>rules_by_id :=
                            map_assign rid (new_rule_data\<lparr>rule_id := rid\<rparr>) (rules_by_id rm1)\<rparr>
                in if priority_changed \<or> rules_by_priority_cache rm2 = []
                   then Some (True, rebuildPriorityCache lib rm2)
                   else Some (True, rm2))
           })"

text \<open>The three readers; each returns what it read and the store with its lock released.\<close>

definition getRule :: "int \<Rightarrow> RuleManager \<Rightarrow> (ClassificationRule option \<times> RuleManager) option" where
  "getRule rid = rw_ReadLockGuard (\<lambda>rm. Some (rule_at rm rid, rm))"

definition getRulesByPriority :: "RuleManager \<Rightarrow> (int list \<times> RuleManager) option" where
  "getRulesByPriority = rw_ReadLockGuard (\<lambda>rm. Some (rules_by_priority_cache rm, rm))"

definition getAllRules :: "RuleManager \<Rightarrow> (rule_map \<times> RuleManager) option" where
  "getAllRules = rw_ReadLockGuard (\<lambda>rm. Some (rules_by_id rm, rm))"

definition incrementRuleMatchCount ::
  "int \<Rightarrow> 64 word \<Rightarrow> RuleManager \<Rightarrow> (bool \<times> RuleManager) option" where
  "incrementRuleMatchCount rid timestamp =
     rw_WriteLockGuard (\<lambda>rm.
       case map_of (rules_by_id rm) rid of
         Some r \<Rightarrow>
           Some (True, rm\<lparr>rules_by_id :=
               map_assign rid (r\<lparr>match_count := match_count r + 1, last_match_time := timestamp\<rparr>)
                 (rules_by_id rm)\<rparr>)
       | None \<Rightarrow> Some (False, rm))"

definition RuleManager_resetRuleStatistics :: "int \<Rightarrow> RuleManager \<Rightarrow> (bool \<times> RuleManager) option" where
  "RuleManager_resetRuleStatistics rid =
     rw_WriteLockGuard (\<lambda>rm.
       case map_of (rules_by_id rm) rid of
         Some r \<Rightarrow>
           Some (True, rm\<lparr>rules_by_id :=
               map_assign rid (r\<lparr>match_count := 0, last_match_time := 0\<rparr>) (rules_by_id rm)\<rparr>)
       | None \<Rightarrow> Some (False, rm))"

definition resetAllRuleStatistics :: "RuleManager \<Rightarrow> (bool \<times> RuleManager) option" where
  "resetAllRuleStatistics =
     rw_WriteLockGuard (\<lambda>rm.
       Some (True, rm\<lparr>rules_by_id :=
          map (\<lambda>kv. (fst kv, (snd kv)\<lparr>match_count := 0, last_match_time := 0\<rparr>)) (rules_by_id rm)\<rparr>))"

subsection \<open>The classifier (packet\_classifier.h and its implementation)\<close>

text \<open>
  The tries are created by the constructor and never used afterwards: only their type
  and the empty root that \<open>CompressedTrie()\<close> makes are needed.
\<close>

datatype TrieNode =
  TrieNode (children: "(char \<times> TrieNode) list") (next_hop_info: int) (is_end_of_prefix: bool)

definition CompressedTrie_new :: TrieNode where
  "CompressedTrie_new = TrieNode [] (-1) False"

record PacketClassifier =
  source_ip_trie :: TrieNode
  dest_ip_trie :: TrieNode
  source_port_tree :: IntervalNode
  dest_port_tree :: IntervalNode
  bloom_filter :: "BloomFilter option"
  use_bloom_filter :: bool
  rule_manager :: RuleManager
  specialized_structures_lock :: ReadWriteLock

definition PacketClassifier_new :: "stdlib \<Rightarrow> bool \<Rightarrow> PacketClassifier" where
  "PacketClassifier_new lib enable_bloom_filter_optimization =
     \<lparr>source_ip_trie = CompressedTrie_new, dest_ip_trie = CompressedTrie_new,
      source_port_tree = Null, dest_port_tree = Null,
      bloom_filter = (if enable_bloom_filter_optimization
                      then Some (BloomFilter_optimal (bloom_params lib)) else None),
      use_bloom_filter = enable_bloom_filter_optimization,
      rule_manager = RuleManager_new,
      specialized_structures_lock = ReadWriteLock_new\<rparr>"

text \<open>The two guards on \<open>specialized_structures_lock_\<close>, for a function body or a block.\<close>

definition spec_ReadLockGuard ::
  "(PacketClassifier \<Rightarrow> ('a \<times> PacketClassifier) option) \<Rightarrow> PacketClassifier
     \<Rightarrow> ('a \<times> PacketClassifier) option" where
  "spec_ReadLockGuard body st =
     do {
       l \<leftarrow> readLock (specialized_structures_lock st);
       (result, st1) \<leftarrow> body (st\<lparr>specialized_structures_lock := l\<rparr>);
       Some (result, st1\<lparr>specialized_structures_lock := readUnlock (specialized_structures_lock st1)\<rparr>)
     }"

definition spec_WriteLockGuard ::
  "(PacketClassifier \<Rightarrow> ('a \<times> PacketClassifier) option) \<Rightarrow> PacketClassifier
     \<Rightarrow> ('a \<times> PacketClassifier) option" where
  "spec_WriteLockGuard body st =
     do {
       l \<leftarrow> writeLock (specialized_structures_lock st);
       (result, st1) \<leftarrow> body (st\<lparr>specialized_structures_lock := l\<rparr>);
       Some (result, st1\<lparr>specialized_structures_lock := writeUnlock (specialized_structures_lock st1)\<rparr>)
     }"

text \<open>\<open>bloom_filter_->insert(s)\<close>.\<close>

definition bloom_insert :: "stdlib \<Rightarrow> string \<Rightarrow> PacketClassifier \<Rightarrow> PacketClassifier" where
  "bloom_insert lib s st = st\<lparr>bloom_filter := map_option (insert_item lib s) (bloom_filter st)\<rparr>"

text \<open>\<open>rule_manager_->getRule(rule_id)\<close> from a member function of the classifier.\<close>

definition rule_manager_getRule ::
  "int \<Rightarrow> PacketClassifier \<Rightarrow> (ClassificationRule option \<times> PacketClassifier) option" where
  "rule_manager_getRule rid st =
     do {
       (rule, rm) \<leftarrow> getRule rid (rule_manager st);
       Some (rule, st\<lparr>rule_manager := rm\<rparr>)
     }"

text \<open>
  The two helpers.  Their calls on the tries and trees are comments in the source
  (\<open>// Conceptual: ...\<close>); what is left is the write guard, the lookup of the rule, the
  return value and, in the first, one insertion into the Bloom filter.
\<close>

definition updateSpecializedStructuresForRule ::
  "stdlib \<Rightarrow> int \<Rightarrow> PacketClassifier \<Rightarrow> (bool \<times> PacketClassifier) option" where
  "updateSpecializedStructuresForRule lib rid =
     spec_WriteLockGuard (\<lambda>st.
       do {
         (rule_ptr, st1) \<leftarrow> rule_manager_getRule rid st;
         (case rule_ptr of
            None \<Rightarrow> Some (False, st1)
          | Some rule \<Rightarrow>
              Some (True, if enabled rule \<and> use_bloom_filter st1
                          then bloom_insert lib (PacketFilter_toString (rule_filter rule)) st1
                          else st1))
       })"

definition removeRuleFromSpecializedStructures ::
  "int \<Rightarrow> PacketClassifier \<Rightarrow> (bool \<times> PacketClassifier) option" where
  "removeRuleFromSpecializedStructures rid =
     spec_WriteLockGuard (\<lambda>st.
       do {
         (rule_ptr, st1) \<leftarrow> rule_manager_getRule rid st;
         (case rule_ptr of
            None \<Rightarrow> Some (True, st1)
          | Some rule \<Rightarrow> Some (True, st1))
       })"

definition addRule ::
  "stdlib \<Rightarrow> ClassificationRule \<Rightarrow> PacketClassifier \<Rightarrow> (bool \<times> PacketClassifier) option" where
  "addRule lib rule st =
     do {
       (ok, rm) \<leftarrow> RuleManager_addRule lib rule (rule_manager st);
       let st1 = st\<lparr>rule_manager := rm\<rparr>;
       if \<not> ok then Some (False, st1)
       else
         spec_WriteLockGuard (\<lambda>st2.
           do {
             (ok2, st3) \<leftarrow> updateSpecializedStructuresForRule lib (rule_id rule) st2;
             if \<not> ok2 then Some (False, st3)
             else if use_bloom_filter st3 then
               do {
                 (added_rule, st4) \<leftarrow> rule_manager_getRule (rule_id rule) st3;
                 (case added_rule of
                    Some r \<Rightarrow>
                      if enabled r
                      then Some (True, bloom_insert lib (PacketFilter_toString (rule_filter r)) st4)
                      else Some (True, st4)
                  | None \<Rightarrow> Some (True, st4))
               }
             else Some (True, st3)
           }) st1
     }"

definition deleteRule :: "stdlib \<Rightarrow> int \<Rightarrow> PacketClassifier \<Rightarrow> (bool \<times> PacketClassifier) option" where
  "deleteRule lib rid st =
     do {
       (removed, st1) \<leftarrow> spec_WriteLockGuard (removeRuleFromSpecializedStructures rid) st;
       (ok, rm) \<leftarrow> RuleManager_deleteRule lib rid (rule_manager st1);
       let st2 = st1\<lparr>rule_manager := rm\<rparr>;
       if \<not> ok then Some (False, st2) else Some (True, st2)
     }"

definition modifyRule ::
  "stdlib \<Rightarrow> int \<Rightarrow> ClassificationRule \<Rightarrow> PacketClassifier \<Rightarrow> (bool \<times> PacketClassifier) option" where
  "modifyRule lib rid new_rule_data st =
     do {
       (ok, rm) \<leftarrow> RuleManager_modifyRule lib rid new_rule_data (rule_manager st);
       let st1 = st\<lparr>rule_manager := rm\<rparr>;
       if \<not> ok then Some (False, st1)
       else
         spec_WriteLockGuard (\<lambda>st2.
           do {
             (removed, st3) \<leftarrow> removeRuleFromSpecializedStructures rid st2;
             (ok2, st4) \<leftarrow> updateSpecializedStructuresForRule lib rid st3;
             if \<not> ok2 then Some (False, st4)
             else if use_bloom_filter st4 then
               do {
                 (modified_rule, st5) \<leftarrow> rule_manager_getRule rid st4;
                 (case modified_rule of
                    Some r \<Rightarrow>
                      if enabled r
                      then Some (True, bloom_insert lib (PacketFilter_toString (rule_filter r)) st5)
                      else Some (True, st5)
                  | None \<Rightarrow> Some (True, st5))
               }
             else Some (True, st4)
           }) st1
     }"

text \<open>
  The loop of \<open>classify\<close> over the snapshot of the priority cache: the first enabled
  rule whose filter matches.  A pointer of the snapshot is followed into the map;
  \<open>!rule\<close> is the case that it leads nowhere.
\<close>

fun classify_loop :: "RuleManager \<Rightarrow> int list \<Rightarrow> PacketHeader \<Rightarrow> ClassificationRule option" where
  "classify_loop rm [] header = None"
| "classify_loop rm (p # ps) header =
     (case rule_at rm p of
        None \<Rightarrow> classify_loop rm ps header
      | Some rule \<Rightarrow>
          if \<not> enabled rule then classify_loop rm ps header
          else if matches (rule_filter rule) header then Some rule
          else classify_loop rm ps header)"

text \<open>
  \<open>classify\<close>, with the clock reading \<open>epoch_time\<close> as an argument.  The answer of the
  Bloom filter is computed where the source computes it; the source only logs it.
\<close>

definition classify ::
  "stdlib \<Rightarrow> 64 word \<Rightarrow> PacketHeader \<Rightarrow> PacketClassifier
     \<Rightarrow> (ClassificationResult \<times> PacketClassifier) option" where
  "classify lib epoch_time header =
     spec_ReadLockGuard (\<lambda>st.
       let bloom_says_no =
             (if use_bloom_filter st
              then (case bloom_filter st of
                      Some bf \<Rightarrow> \<not> possiblyContains lib bf (PacketHeader_toString header)
                    | None \<Rightarrow> False)
              else False)
       in
       do {
         (rules, rm1) \<leftarrow> getRulesByPriority (rule_manager st);
         (case classify_loop rm1 rules header of
            Some rule \<Rightarrow>
              do {
                (counted, rm2) \<leftarrow> incrementRuleMatchCount (rule_id rule) epoch_time rm1;
                Some (\<lparr>matched = True, matched_rule_id = rule_id rule,
                        actions = ClassificationRule.actions rule\<rparr>,
                      st\<lparr>rule_manager := rm2\<rparr>)
              }
          | None \<Rightarrow>
              Some (ClassificationResult_default\<lparr>matched := False, matched_rule_id := -1\<rparr>,
                    st\<lparr>rule_manager := rm1\<rparr>))
       })"

definition getStatistics ::
  "PacketClassifier \<Rightarrow> ((int \<times> 64 word) list \<times> PacketClassifier) option" where
  "getStatistics st =
     do {
       (all_rules, rm) \<leftarrow> getAllRules (rule_manager st);
       Some (map (\<lambda>kv. (fst kv, match_count (snd kv))) all_rules, st\<lparr>rule_manager := rm\<rparr>)
     }"

definition getRuleStatistics :: "int \<Rightarrow> PacketClassifier \<Rightarrow> (64 word \<times> PacketClassifier) option" where
  "getRuleStatistics rid st =
     do {
       (rule_ptr, st1) \<leftarrow> rule_manager_getRule rid st;
       Some (case rule_ptr of Some rule \<Rightarrow> match_count rule | None \<Rightarrow> 0, st1)
     }"

definition resetStatistics :: "PacketClassifier \<Rightarrow> PacketClassifier option" where
  "resetStatistics st =
     do {
       (done, rm) \<leftarrow> resetAllRuleStatistics (rule_manager st);
       Some (st\<lparr>rule_manager := rm\<rparr>)
     }"

definition resetRuleStatistics :: "int \<Rightarrow> PacketClassifier \<Rightarrow> PacketClassifier option" where
  "resetRuleStatistics rid st =
     do {
       (done, rm) \<leftarrow> RuleManager_resetRuleStatistics rid (rule_manager st);
       Some (st\<lparr>rule_manager := rm\<rparr>)
     }"

text \<open>
  A client of the classifier: a sequence of calls on one \<open>PacketClassifier\<close> object, each
  made when the one before has returned.  The result is the object after the last call,
  or \<open>None\<close> when a call does not return.
\<close>

datatype call =
  AddRule ClassificationRule
  | DeleteRule int
  | ModifyRule int ClassificationRule
  | Classify PacketHeader "64 word"
  | GetStatistics
  | GetRuleStatistics int
  | ResetStatistics
  | ResetRuleStatistics int

fun do_call :: "stdlib \<Rightarrow> call \<Rightarrow> PacketClassifier \<Rightarrow> PacketClassifier option" where
  "do_call lib (AddRule rule) st = map_option snd (addRule lib rule st)"
| "do_call lib (DeleteRule rid) st = map_option snd (deleteRule lib rid st)"
| "do_call lib (ModifyRule rid new_rule_data) st = map_option snd (modifyRule lib rid new_rule_data st)"
| "do_call lib (Classify header epoch_time) st = map_option snd (classify lib epoch_time header st)"
| "do_call lib GetStatistics st = map_option snd (getStatistics st)"
| "do_call lib (GetRuleStatistics rid) st = map_option snd (getRuleStatistics rid st)"
| "do_call lib ResetStatistics st = resetStatistics st"
| "do_call lib (ResetRuleStatistics rid) st = resetRuleStatistics rid st"

fun run :: "stdlib \<Rightarrow> call list \<Rightarrow> PacketClassifier \<Rightarrow> PacketClassifier option" where
  "run lib [] st = Some st"
| "run lib (c # calls) st = do { st1 \<leftarrow> do_call lib c st; run lib calls st1 }"

text \<open>
  A library instance for closed statements: \<open>std::sort\<close> by insertion, a hash that is
  the length of the string, and the Bloom filter parameters for 10000 items at a false
  positive rate of 0.01.
\<close>

fun insert_sorted :: "(int \<Rightarrow> int \<Rightarrow> bool) \<Rightarrow> int \<Rightarrow> int list \<Rightarrow> int list" where
  "insert_sorted cmp x [] = [x]"
| "insert_sorted cmp x (y # ys) = (if cmp x y then x # y # ys else y # insert_sorted cmp x ys)"

definition insertion_sort :: "(int \<Rightarrow> int \<Rightarrow> bool) \<Rightarrow> int list \<Rightarrow> int list" where
  "insertion_sort cmp xs = foldl (\<lambda>acc x. insert_sorted cmp x acc) [] xs"

definition lib_stable :: stdlib where
  "lib_stable = \<lparr>std_hash = (\<lambda>s. of_nat (length s)), std_sort = insertion_sort,
                  bloom_params = (95851, 7)\<rparr>"

subsection \<open>Notions used in the statements\<close>

text \<open>No lock of the classifier is held: both locks are as their constructor left them.\<close>

definition locks_free :: "PacketClassifier \<Rightarrow> bool" where
  "locks_free st \<longleftrightarrow>
     specialized_structures_lock st = ReadWriteLock_new
     \<and> rw_lock (rule_manager st) = ReadWriteLock_new"

text \<open>
  The rule store and the derived structures of a classifier: every member except the
  two locks.
\<close>

definition data_of ::
  "PacketClassifier \<Rightarrow> rule_map \<times> int list \<times> TrieNode \<times> TrieNode \<times> IntervalNode \<times> IntervalNode
     \<times> BloomFilter option \<times> bool" where
  "data_of st =
     (rules_by_id (rule_manager st), rules_by_priority_cache (rule_manager st),
      source_ip_trie st, dest_ip_trie st, source_port_tree st, dest_port_tree st,
      bloom_filter st, use_bloom_filter st)"

text \<open>
  A well-formed rule store: the cache is what \<open>std::sort\<close> makes of the map's keys
  under the current priorities, the keys ascend strictly, and every rule is stored
  under its own id.
\<close>

definition rm_inv :: "stdlib \<Rightarrow> RuleManager \<Rightarrow> bool" where
  "rm_inv lib rm \<longleftrightarrow>
     rules_by_priority_cache rm =
       std_sort lib (\<lambda>a b. priority_at (rules_by_id rm) a > priority_at (rules_by_id rm) b)
         (map fst (rules_by_id rm))
     \<and> sorted_wrt (<) (map fst (rules_by_id rm))
     \<and> (\<forall>kv \<in> set (rules_by_id rm). rule_id (snd kv) = fst kv)"

fun is_AddRule :: "call \<Rightarrow> bool" where
  "is_AddRule (AddRule rule) = True"
| "is_AddRule c = False"

subsection \<open>The reference of the specification\<close>

text \<open>
  The filter semantics of the specification.  A prefix is an address with a length from
  0 to 32 and covers the addresses that agree with it on the first \<open>length\<close> bits (length
  0 covers every address, length 32 exactly one); its textual form is \<open>a.b.c.d/len\<close>.
  An unspecified field is a wildcard: the empty prefix string, the port range \<open>[0, 0]\<close>
  and the protocol 0.
\<close>

fun split_at :: "char \<Rightarrow> string \<Rightarrow> string list" where
  "split_at c [] = [[]]"
| "split_at c (x # xs) =
     (if x = c then [] # split_at c xs
      else (case split_at c xs of
              [] \<Rightarrow> [[x]]
            | w # ws \<Rightarrow> (x # w) # ws))"

definition digit_of :: "char \<Rightarrow> nat option" where
  "digit_of c =
     (let n = (of_char c :: nat) in if 48 \<le> n \<and> n \<le> 57 then Some (n - 48) else None)"

fun parse_digits :: "nat \<Rightarrow> string \<Rightarrow> nat option" where
  "parse_digits n [] = Some n"
| "parse_digits n (c # cs) =
     (case digit_of c of
        Some d \<Rightarrow> parse_digits (10 * n + d) cs
      | None \<Rightarrow> None)"

definition parse_decimal :: "string \<Rightarrow> nat option" where
  "parse_decimal s = (if s = [] then None else parse_digits 0 s)"

definition parse_prefix :: "string \<Rightarrow> (32 word \<times> nat) option" where
  "parse_prefix s =
     (case split_at CHR ''/'' s of
        [addr, len] \<Rightarrow>
          (case (map parse_decimal (split_at CHR ''.'' addr), parse_decimal len) of
             ([Some a, Some b, Some c, Some d], Some n) \<Rightarrow>
               if a \<le> 255 \<and> b \<le> 255 \<and> c \<le> 255 \<and> d \<le> 255 \<and> n \<le> 32
               then Some (((of_nat a * 256 + of_nat b) * 256 + of_nat c) * 256 + of_nat d, n)
               else None
           | _ \<Rightarrow> None)
      | _ \<Rightarrow> None)"

definition prefix_covers :: "32 word \<times> nat \<Rightarrow> 32 word \<Rightarrow> bool" where
  "prefix_covers p ip \<longleftrightarrow> drop_bit (32 - snd p) ip = drop_bit (32 - snd p) (fst p)"

definition reference_prefix_matches :: "string \<Rightarrow> 32 word \<Rightarrow> bool" where
  "reference_prefix_matches s ip =
     (if s = [] then True
      else (case parse_prefix s of Some p \<Rightarrow> prefix_covers p ip | None \<Rightarrow> False))"

definition reference_matches :: "PacketFilter \<Rightarrow> PacketHeader \<Rightarrow> bool" where
  "reference_matches f header \<longleftrightarrow>
     reference_prefix_matches (source_ip_prefix f) (source_ip header)
     \<and> reference_prefix_matches (dest_ip_prefix f) (dest_ip header)
     \<and> ((source_port_low f = 0 \<and> source_port_high f = 0)
        \<or> (source_port_low f \<le> source_port header \<and> source_port header \<le> source_port_high f))
     \<and> ((dest_port_low f = 0 \<and> dest_port_high f = 0)
        \<or> (dest_port_low f \<le> dest_port header \<and> dest_port header \<le> dest_port_high f))
     \<and> (PacketFilter.protocol f = 0 \<or> PacketFilter.protocol f = PacketHeader.protocol header)"

text \<open>
  The priority order \<open>(-priority, id)\<close> of the specification (descending priority, equal
  priorities by ascending id), and its linear scan: the first enabled rule in that order
  whose filter matches.
\<close>

definition reference_order :: "ClassificationRule list \<Rightarrow> ClassificationRule list" where
  "reference_order rules = sort_key (\<lambda>r. - priority r) (sort_key rule_id rules)"

definition reference_classify :: "ClassificationRule list \<Rightarrow> PacketHeader \<Rightarrow> ClassificationResult" where
  "reference_classify rules header =
     (case find (\<lambda>r. enabled r \<and> reference_matches (rule_filter r) header) (reference_order rules) of
        Some r \<Rightarrow> \<lparr>matched = True, matched_rule_id = rule_id r,
                     actions = ClassificationRule.actions r\<rparr>
      | None \<Rightarrow> \<lparr>matched = False, matched_rule_id = -1, actions = ActionList_default\<rparr>)"

subsection \<open>Concrete inputs\<close>

text \<open>
  Rules as the constructor \<open>ClassificationRule(id, prio, f, a)\<close> makes them, the filter
  \<open>PacketFilter()\<close>, the rules of the unit tests (\<open>createTestRule(id, priority)\<close> with its
  default arguments), and the rules, the packet and the calls of scenario S2 of the
  specification.
\<close>

definition ClassificationRule_new ::
  "int \<Rightarrow> int \<Rightarrow> PacketFilter \<Rightarrow> ActionList \<Rightarrow> ClassificationRule" where
  "ClassificationRule_new rid prio f a =
     \<lparr>rule_id = rid, priority = prio, rule_filter = f, actions = a, enabled = True,
      match_count = 0, last_match_time = 0\<rparr>"

definition PacketFilter_any :: PacketFilter where
  "PacketFilter_any =
     \<lparr>source_ip_prefix = [], dest_ip_prefix = [], source_port_low = 0, source_port_high = 0,
      dest_port_low = 0, dest_port_high = 0, protocol = 0\<rparr>"


definition S2_rule_A :: ClassificationRule where
  "S2_rule_A = ClassificationRule_new 1 100
     (PacketFilter_any\<lparr>source_ip_prefix := ''10.0.0.0/8''\<rparr>) ActionList_default"

definition S2_rule_B :: ClassificationRule where
  "S2_rule_B = ClassificationRule_new 2 200
     (PacketFilter_any\<lparr>source_ip_prefix := ''10.1.0.0/16''\<rparr>)
     \<lparr>primary_action = FORWARD, next_hop_id = 5, log_identifier = []\<rparr>"

definition S2_packet :: PacketHeader where
  "S2_packet = \<lparr>source_ip = 0x0A020203, dest_ip = 0x08080808, source_port = 33333,
                 dest_port = 80, protocol = 6\<rparr>"

definition S2_calls :: "call list" where
  "S2_calls = [AddRule S2_rule_A, AddRule S2_rule_B, Classify S2_packet 7]"

text \<open>The rule of scenario S3: destination ports 80 to 443, protocol 6.\<close>

definition S3_rule :: ClassificationRule where
  "S3_rule = ClassificationRule_new 7 50
     (PacketFilter_any\<lparr>dest_port_low := 80, dest_port_high := 443, protocol := 6\<rparr>)
     \<lparr>primary_action = LOG, next_hop_id = -1, log_identifier = ''web''\<rparr>"

text \<open>
  Two rules with an inverted port range, and two classifiers given by their members: one
  whose rule store holds rule A, one whose rule store holds the first inverted rule; no
  lock is held in either.  They are the objects that one \<open>addRule\<close> on a new classifier
  is meant to build; the statements that use them hold of every classifier object.
\<close>

definition inverted_rule :: ClassificationRule where
  "inverted_rule = ClassificationRule_new 1 100
     (PacketFilter_any\<lparr>source_port_low := 100, source_port_high := 50\<rparr>) ActionList_default"

definition inverted_dest_rule :: ClassificationRule where
  "inverted_dest_rule = ClassificationRule_new 4 50
     (PacketFilter_any\<lparr>dest_port_low := 443, dest_port_high := 80\<rparr>) ActionList_default"

definition w_state :: PacketClassifier where
  "w_state =
     (PacketClassifier_new lib_stable False)
       \<lparr>rule_manager :=
          RuleManager_new\<lparr>rules_by_id := [(1, S2_rule_A)], rules_by_priority_cache := [1]\<rparr>\<rparr>"

definition inverted_state :: PacketClassifier where
  "inverted_state =
     (PacketClassifier_new lib_stable False)
       \<lparr>rule_manager :=
          RuleManager_new\<lparr>rules_by_id := [(1, inverted_rule)], rules_by_priority_cache := [1]\<rparr>\<rparr>"

section \<open>Bloom filter: no false negatives\<close>

lemma bloom_wf_sized: "bloom_wf (BloomFilter_sized m k)"
  by (simp add: bloom_wf_def BloomFilter_sized_def Let_def)

lemma bloom_wf_optimal: "bloom_wf (BloomFilter_optimal p)"
  by (simp add: bloom_wf_def BloomFilter_optimal_def Let_def)

lemma hash_at_in_range:
  assumes "bit_array_size bf \<noteq> 0"
  shows "unat (hash_at bf h1 h2 i) < unat (bit_array_size bf)"
proof -
  have "\<And>x :: 64 word. x mod bit_array_size bf < bit_array_size bf"
    using assms by (simp add: word_mod_less_divisor word_neq_0_conv)
  then show ?thesis
    by (simp add: hash_at_def word_less_nat_alt)
qed

lemma hash_in_range:
  "h \<in> set (hash lib bf data) \<Longrightarrow> unat h < unat (bit_array_size bf)"
  by (auto simp: hash_def Let_def hash_at_in_range split: if_splits)

lemma length_set_bits: "length (set_bits bits hs) = length bits"
  unfolding set_bits_def by (induction hs arbitrary: bits) simp_all

lemma set_bits_keeps:
  "i < length bits \<Longrightarrow> bits ! i \<Longrightarrow> set_bits bits hs ! i"
  unfolding set_bits_def
proof (induction hs arbitrary: bits)
  case Nil
  then show ?case by simp
next
  case (Cons a hs)
  have "(bits[unat a := True]) ! i"
    using Cons.prems by (cases "unat a < length bits") (simp_all add: nth_list_update)
  then show ?case
    using Cons.prems Cons.IH [of "bits[unat a := True]"] by simp
qed

lemma set_bits_sets:
  "h \<in> set hs \<Longrightarrow> unat h < length bits \<Longrightarrow> set_bits bits hs ! unat h"
proof (induction hs arbitrary: bits)
  case Nil
  then show ?case by simp
next
  case (Cons a hs)
  show ?case
  proof (cases "h = a")
    case True
    have "set_bits (bits[unat a := True]) hs ! unat a"
      using Cons.prems(2) True by (intro set_bits_keeps) simp_all
    then show ?thesis using True by (simp add: set_bits_def)
  next
    case False
    then have "set_bits (bits[unat a := True]) hs ! unat h"
      using Cons by simp
    then show ?thesis by (simp add: set_bits_def)
  qed
qed

lemma insert_item_wf: "bloom_wf bf \<Longrightarrow> bloom_wf (insert_item lib x bf)"
  by (simp add: bloom_wf_def insert_item_def length_set_bits)

lemma insert_item_params:
  "bit_array_size (insert_item lib x bf) = bit_array_size bf"
  "num_hash_functions (insert_item lib x bf) = num_hash_functions bf"
  by (simp_all add: insert_item_def)

lemma hash_at_insert_item: "hash_at (insert_item lib y bf) = hash_at bf"
  by (simp add: fun_eq_iff hash_at_def insert_item_params)

lemma hash_insert_item: "hash lib (insert_item lib y bf) x = hash lib bf x"
  by (simp add: hash_def hash_at_insert_item insert_item_params)

lemma possiblyContains_insert_item:
  assumes "bloom_wf bf"
  shows "possiblyContains lib (insert_item lib x bf) x"
proof -
  have "bit_array (insert_item lib x bf) ! unat h" if "h \<in> set (hash lib bf x)" for h
  proof -
    have "unat h < length (bit_array bf)"
      using hash_in_range [OF that] assms by (simp add: bloom_wf_def)
    then show ?thesis
      using that assms by (simp add: insert_item_def bloom_wf_def set_bits_sets)
  qed
  then show ?thesis
    using assms
    by (simp add: possiblyContains_def insert_item_params hash_insert_item bloom_wf_def
        list_all_iff)
qed

lemma possiblyContains_mono:
  assumes "bloom_wf bf" "possiblyContains lib bf x"
  shows "possiblyContains lib (insert_item lib y bf) x"
proof -
  have "bit_array (insert_item lib y bf) ! unat h" if "h \<in> set (hash lib bf x)" for h
  proof -
    have "unat h < length (bit_array bf)"
      using hash_in_range [OF that] assms(1) by (simp add: bloom_wf_def)
    moreover have "bit_array bf ! unat h"
      using that assms by (simp add: possiblyContains_def bloom_wf_def list_all_iff)
    ultimately show ?thesis
      using assms(1) by (simp add: insert_item_def bloom_wf_def set_bits_keeps)
  qed
  then show ?thesis
    using assms(1)
    by (simp add: possiblyContains_def insert_item_params hash_insert_item bloom_wf_def
        list_all_iff)
qed

lemma insert_items_wf: "bloom_wf bf \<Longrightarrow> bloom_wf (insert_items lib xs bf)"
  unfolding insert_items_def
  by (induction xs arbitrary: bf) (simp_all add: insert_item_wf)

lemma possiblyContains_insert_items:
  "bloom_wf bf \<Longrightarrow> possiblyContains lib bf x \<Longrightarrow> possiblyContains lib (insert_items lib ys bf) x"
  unfolding insert_items_def
  by (induction ys arbitrary: bf) (simp_all add: insert_item_wf possiblyContains_mono)

lemma insert_items_append:
  "insert_items lib (xs @ ys) bf = insert_items lib ys (insert_items lib xs bf)"
  by (simp add: insert_items_def)

lemma insert_items_Cons:
  "insert_items lib (x # xs) bf = insert_items lib xs (insert_item lib x bf)"
  by (simp add: insert_items_def)

lemma no_false_negative_wf:
  assumes "bloom_wf bf"
  shows "possiblyContains lib (insert_items lib (before @ x # after) bf) x"
proof -
  have wf1: "bloom_wf (insert_items lib before bf)"
    using assms by (rule insert_items_wf)
  have "possiblyContains lib (insert_item lib x (insert_items lib before bf)) x"
    using wf1 by (rule possiblyContains_insert_item)
  then have "possiblyContains lib
      (insert_items lib after (insert_item lib x (insert_items lib before bf))) x"
    using wf1 by (intro possiblyContains_insert_items insert_item_wf)
  then show ?thesis
    by (simp add: insert_items_append insert_items_Cons)
qed

text \<open>
  C7.  The Bloom filter has no false negatives.  Take a filter as either constructor
  builds it, insert any items \<open>before\<close>, then \<open>x\<close>, then any items \<open>after\<close>:
  \<open>possiblyContains x\<close> returns true.
\<close>

theorem bloom_no_false_negatives:
  "possiblyContains lib (insert_items lib (before @ x # after) (BloomFilter_sized m k)) x
   \<and> possiblyContains lib (insert_items lib (before @ x # after) (BloomFilter_optimal p)) x"
  by (simp add: no_false_negative_wf bloom_wf_sized bloom_wf_optimal)

section \<open>Interval tree: what insertion and removal return\<close>

lemma heights_pos_getHeight: "heights_pos t \<Longrightarrow> 0 \<le> getHeight t"
  by (cases t) auto

lemma upd_children: "heights_pos l \<Longrightarrow> heights_pos r \<Longrightarrow> heights_pos (updateMaxHigh (updateNodeHeight (Node iv mh l r h')))"
  using heights_pos_getHeight[of l] heights_pos_getHeight[of r]
  by (auto simp: Let_def)

lemma rotateRight_ok:
  assumes "heights_pos l" "heights_pos r" "l \<noteq> Null"
  shows "\<exists>t. rotateRight (Node iv mh l r h) = Inr t \<and> heights_pos t"
proof (cases l)
  case Null
  with assms show ?thesis by simp
next
  case (Node xiv xmh xl xr xh)
  then have hl: "heights_pos xl" "heights_pos xr" using assms(1) by simp_all
  have a: "heights_pos (updateMaxHigh (updateNodeHeight (Node iv mh xr r h)))"
    using hl(2) assms(2) by (rule upd_children)
  have "heights_pos (updateMaxHigh (updateNodeHeight (Node xiv xmh xl
       (updateMaxHigh (updateNodeHeight (Node iv mh xr r h))) xh)))"
    by (rule upd_children [OF hl(1) a])
  then show ?thesis
    unfolding Node by (simp only: rotateRight.simps Let_def) blast
qed

lemma rotateLeft_ok:
  assumes "heights_pos l" "heights_pos r" "r \<noteq> Null"
  shows "\<exists>t. rotateLeft (Node iv mh l r h) = Inr t \<and> heights_pos t"
proof (cases r)
  case Null
  with assms show ?thesis by simp
next
  case (Node yiv ymh yl yr yh)
  then have hr: "heights_pos yl" "heights_pos yr" using assms(2) by simp_all
  have a: "heights_pos (updateMaxHigh (updateNodeHeight (Node iv mh l yl h)))"
    using assms(1) hr(1) by (rule upd_children)
  have "heights_pos (updateMaxHigh (updateNodeHeight (Node yiv ymh
       (updateMaxHigh (updateNodeHeight (Node iv mh l yl h))) yr yh)))"
    by (rule upd_children [OF a hr(2)])
  then show ?thesis
    unfolding Node by (simp only: rotateLeft.simps Let_def) blast
qed

lemma rotate_not_Null:
  "rotateRight t = Inr t' \<Longrightarrow> t' \<noteq> Null"
  "rotateLeft t = Inr t' \<Longrightarrow> t' \<noteq> Null"
  by (induction t rule: rotateRight.induct; auto simp: Let_def split: IntervalNode.splits)
     (induction t rule: rotateLeft.induct; auto simp: Let_def split: IntervalNode.splits)

lemma upd_shape:
  "\<exists>mh' h'. updateMaxHigh (updateNodeHeight (Node iv mh l r h)) = Node iv mh' l r h'
     \<and> h' = 1 + max (getHeight l) (getHeight r)"
  by (simp add: Let_def)

lemma remove_rebalance_ok:
  assumes "heights_pos l" "heights_pos r"
  shows "\<exists>t. remove_rebalance (Node iv mh l r h) = Inr t \<and> heights_pos t"
proof -
  obtain mh' h' where upd: "updateMaxHigh (updateNodeHeight (Node iv mh l r h)) = Node iv mh' l r h'"
    using upd_shape by blast
  have hp: "heights_pos (Node iv mh' l r h')"
    using upd_children [OF assms, of iv mh h] upd by simp
  let ?b = "getHeight l - getHeight r"
  have gl: "0 \<le> getHeight l" and gr: "0 \<le> getHeight r"
    using assms heights_pos_getHeight by blast+
  have lnn: "l \<noteq> Null" if "?b > 1" using that gr by (cases l) auto
  have rnn: "r \<noteq> Null" if "?b < -1" using that gl by (cases r) auto
  have unf: "remove_rebalance (Node iv mh l r h) =
     (if ?b > 1 \<and> getBalanceFactor l \<ge> 0 then rotateRight (Node iv mh' l r h')
      else if ?b > 1 \<and> getBalanceFactor l < 0 then
        (case rotateLeft l of Inl e \<Rightarrow> Inl e | Inr l' \<Rightarrow> rotateRight (Node iv mh' l' r h'))
      else if ?b < -1 \<and> getBalanceFactor r \<le> 0 then rotateLeft (Node iv mh' l r h')
      else if ?b < -1 \<and> getBalanceFactor r > 0 then
        (case rotateRight r of Inl e \<Rightarrow> Inl e | Inr r' \<Rightarrow> rotateLeft (Node iv mh' l r' h'))
      else Inr (Node iv mh' l r h'))"
    unfolding remove_rebalance_def upd by (simp add: Let_def)
  consider (LL) "?b > 1" "getBalanceFactor l \<ge> 0"
    | (LR) "?b > 1" "getBalanceFactor l < 0"
    | (RR) "\<not> ?b > 1" "?b < -1" "getBalanceFactor r \<le> 0"
    | (RL) "\<not> ?b > 1" "?b < -1" "getBalanceFactor r > 0"
    | (none) "\<not> ?b > 1" "\<not> ?b < -1"
    by linarith
  then show ?thesis
  proof cases
    case LL
    then show ?thesis
      using rotateRight_ok [OF assms lnn [OF LL(1)], of iv mh' h']
      by (simp add: unf)
  next
    case LR
    obtain liv lmh ll lr lh where l: "l = Node liv lmh ll lr lh"
      using lnn [OF LR(1)] by (cases l) auto
    have hll: "heights_pos ll" "heights_pos lr" using assms(1) l by simp_all
    have "lr \<noteq> Null"
      using LR(2) l heights_pos_getHeight [OF hll(1)] by (cases lr) auto
    then obtain l' where l': "rotateLeft l = Inr l'" "heights_pos l'"
      using rotateLeft_ok [OF hll, of liv lmh lh] l by blast
    have "l' \<noteq> Null" using l'(1) by (rule rotate_not_Null)
    then show ?thesis
      using LR rotateRight_ok [OF l'(2) assms(2), of iv mh' h'] l'(1)
      by (simp add: unf)
  next
    case RR
    then show ?thesis
      using rotateLeft_ok [OF assms rnn [OF RR(2)], of iv mh' h']
      by (simp add: unf)
  next
    case RL
    obtain riv rmh rl rr rh where r: "r = Node riv rmh rl rr rh"
      using rnn [OF RL(2)] by (cases r) auto
    have hrr: "heights_pos rl" "heights_pos rr" using assms(2) r by simp_all
    have "rl \<noteq> Null"
      using RL(3) r heights_pos_getHeight [OF hrr(2)] by (cases rl) auto
    then obtain r' where r': "rotateRight r = Inr r'" "heights_pos r'"
      using rotateRight_ok [OF hrr, of riv rmh rh] r by blast
    have "r' \<noteq> Null" using r'(1) by (rule rotate_not_Null)
    then show ?thesis
      using RL rotateLeft_ok [OF assms(1) r'(2), of iv mh' h'] r'(1)
      by (simp add: unf)
  next
    case none
    then show ?thesis
      using hp by (simp add: unf)
  qed
qed

lemma findMin_not_Null: "t \<noteq> Null \<Longrightarrow> findMin t \<noteq> Null"
  by (induction t rule: findMin.induct) auto

lemma removeRecursive_ok:
  "heights_pos t \<Longrightarrow> \<exists>t'. removeRecursive t target = Inr t' \<and> heights_pos t'"
proof (induction t arbitrary: target)
  case Null
  then show ?case by simp
next
  case (Node iv mh l r h)
  have hl: "heights_pos l" and hr: "heights_pos r" using Node.prems by simp_all
  let ?less = "low target < low iv \<or> (low target = low iv \<and> high target < high iv)"
  let ?greater = "low target > low iv \<or> (low target = low iv \<and> high target > high iv)"
  let ?found = "low iv = low target \<and> high iv = high target \<and> data_id iv = data_id target"
  consider (less) ?less | (greater) "\<not> ?less" ?greater
    | (leaf) "\<not> ?less" "\<not> ?greater" ?found "l = Null \<or> r = Null"
    | (two) "\<not> ?less" "\<not> ?greater" ?found "l \<noteq> Null" "r \<noteq> Null"
    | (other) "\<not> ?less" "\<not> ?greater" "\<not> ?found"
    by blast
  then show ?case
  proof cases
    case less
    obtain l' where l': "removeRecursive l target = Inr l'" "heights_pos l'"
      using Node.IH(1) [OF hl] by blast
    have "removeRecursive (Node iv mh l r h) target = remove_rebalance (Node iv mh l' r h)"
      using less l'(1) by (simp add: Let_def)
    then show ?thesis
      using remove_rebalance_ok [OF l'(2) hr, of iv mh h] by simp
  next
    case greater
    obtain r' where r': "removeRecursive r target = Inr r'" "heights_pos r'"
      using Node.IH(2) [OF hr] by blast
    have "\<not> (low target = low iv \<and> high target < high iv)" "\<not> low target < low iv"
      using greater by auto
    then have "removeRecursive (Node iv mh l r h) target = remove_rebalance (Node iv mh l r' h)"
      using greater(2) r'(1) by (auto simp: Let_def)
    then show ?thesis
      using remove_rebalance_ok [OF hl r'(2), of iv mh h] by simp
  next
    case leaf
    then have "removeRecursive (Node iv mh l r h) target = Inr (if l \<noteq> Null then l else r)"
      by (simp add: Let_def)
    then show ?thesis using hl hr by simp
  next
    case two
    obtain miv mmh ml mr mhh where m: "findMin r = Node miv mmh ml mr mhh"
      using findMin_not_Null [OF two(5)] by (cases "findMin r") auto
    obtain r' where r': "removeRecursive r miv = Inr r'" "heights_pos r'"
      using Node.IH(2) [OF hr] by blast
    have "removeRecursive (Node iv mh l r h) target = remove_rebalance (Node miv mh l r' h)"
      using two m r'(1) by (simp add: Let_def)
    then show ?thesis
      using remove_rebalance_ok [OF hl r'(2), of miv mh h] by simp
  next
    case other
    have eqs: "low target = low iv" "high target = high iv"
      using other(1,2) by auto
    then have "data_id iv \<noteq> data_id target"
      using other(3) by simp
    then have "removeRecursive (Node iv mh l r h) target = remove_rebalance (Node iv mh l r h)"
      using eqs by (simp add: Let_def)
    then show ?thesis
      using remove_rebalance_ok [OF hl hr, of iv mh h] by simp
  qed
qed

lemma insert_rebalance_None:
  "insert_rebalance (Node iv mh l r h) None =
     (if getHeight l - getHeight r > 1 \<or> getHeight l - getHeight r < -1 then Inl NullDeref
      else Inr (updateMaxHigh (updateNodeHeight (Node iv mh l r h))))"
  by (simp add: insert_rebalance_def deref_def Let_def)

lemma insert_rebalance_ok:
  assumes "heights_pos l" "heights_pos r" "insert_rebalance (Node iv mh l r h) None = Inr t"
  shows "heights_pos t"
proof -
  have "t = updateMaxHigh (updateNodeHeight (Node iv mh l r h))"
    using assms(3) unfolding insert_rebalance_None by (simp split: if_splits)
  then show ?thesis using upd_children [OF assms(1,2)] by simp
qed

lemma insertRecursive_ok:
  "heights_pos t \<Longrightarrow> insertRecursive t ni = Inr t' \<Longrightarrow> heights_pos t'"
proof (induction t arbitrary: t')
  case Null
  then show ?case by auto
next
  case (Node iv mh l r h)
  have hl: "heights_pos l" and hr: "heights_pos r" using Node.prems by simp_all
  show ?case
  proof (cases "low ni < low iv \<or> (low ni = low iv \<and> high ni < high iv)")
    case True
    then have eq: "insertRecursive (Node iv mh l r h) ni =
        (case insertRecursive l ni of Inl e \<Rightarrow> Inl e
         | Inr l' \<Rightarrow> insert_rebalance (Node iv mh l' r h) None)"
      by auto
    then obtain l' where l': "insertRecursive l ni = Inr l'"
        "insert_rebalance (Node iv mh l' r h) None = Inr t'"
      using Node.prems(2) by (auto split: sum.splits)
    show ?thesis
      using insert_rebalance_ok [OF Node.IH(1) [OF hl l'(1)] hr l'(2)] .
  next
    case False
    then have eq: "insertRecursive (Node iv mh l r h) ni =
        (case insertRecursive r ni of Inl e \<Rightarrow> Inl e
         | Inr r' \<Rightarrow> insert_rebalance (Node iv mh l r' h) None)"
      by auto
    then obtain r' where r': "insertRecursive r ni = Inr r'"
        "insert_rebalance (Node iv mh l r' h) None = Inr t'"
      using Node.prems(2) by (auto split: sum.splits)
    show ?thesis
      using insert_rebalance_ok [OF hl Node.IH(2) [OF hr r'(1)] r'(2)] .
  qed
qed

lemma tree_step_ok:
  assumes "heights_pos t" "tree_step op t = Inr t'"
  shows "heights_pos t'"
proof (cases op)
  case (Insert lo hi d)
  then show ?thesis
    using assms insertRecursive_ok [OF assms(1)]
    by (auto simp: IntervalTree_insert_def split: if_splits)
next
  case (Remove lo hi d)
  obtain t2 where t2: "removeRecursive t (Interval lo hi d) = Inr t2" "heights_pos t2"
    using removeRecursive_ok [OF assms(1)] by blast
  then show ?thesis
    using assms(2) Remove by (simp add: IntervalTree_remove_def)
qed

lemma tree_run_ok: "heights_pos t \<Longrightarrow> tree_run ops t = Inr t' \<Longrightarrow> heights_pos t'"
  by (induction ops arbitrary: t) (auto split: sum.splits dest: tree_step_ok)

lemma max_high_bound: "tree_inv t \<Longrightarrow> t \<noteq> Null \<Longrightarrow> x \<in> intervals t \<Longrightarrow> high x \<le> max_high t"
  by (cases t) auto

lemma find_exact:
  "tree_inv t \<Longrightarrow>
   set (findOverlappingRecursive t q acc) = set acc \<union> {x \<in> intervals t. contains_point q x}"
proof (induction t arbitrary: acc)
  case Null
  then show ?case by simp
next
  case (Node iv mh l r h)
  have il: "tree_inv l" and ir: "tree_inv r" using Node.prems by simp_all
  note IHl = Node.IH(1) [OF il] and IHr = Node.IH(2) [OF ir]
  have skip_l: "{x \<in> intervals l. contains_point q x} = {}"
    if "\<not> (l \<noteq> Null \<and> max_high l \<ge> q)"
  proof (cases "l = Null")
    case True
    then show ?thesis by simp
  next
    case nn: False
    have "high x \<le> max_high l" if "x \<in> intervals l" for x
      by (rule max_high_bound [OF il nn that])
    then show ?thesis using that nn by (fastforce simp: contains_point_def)
  qed
  have skip_r: "{x \<in> intervals r. contains_point q x} = {}" if "q < low iv"
    using Node.prems that by (fastforce simp: contains_point_def)
  have r_Null: "{x \<in> intervals r. contains_point q x} = {}" if "r = Null"
    using that by simp
  define r1 where "r1 = (if q \<ge> low iv \<and> q \<le> high iv then acc @ [iv] else acc)"
  define r2 where "r2 = (if l \<noteq> Null \<and> max_high l \<ge> q
                     then findOverlappingRecursive l q r1 else r1)"
  have s1: "set r1 = set acc \<union> {x \<in> {iv}. contains_point q x}"
    by (auto simp: r1_def contains_point_def)
  have s2: "set r2 = set r1 \<union> {x \<in> intervals l. contains_point q x}"
  proof (cases "l \<noteq> Null \<and> max_high l \<ge> q")
    case True
    then show ?thesis by (simp add: r2_def IHl)
  next
    case False
    then have "r2 = r1" by (auto simp: r2_def)
    then show ?thesis unfolding skip_l [OF False] by simp
  qed
  have eq: "findOverlappingRecursive (Node iv mh l r h) q acc =
      (if r \<noteq> Null \<and> q \<ge> low iv then findOverlappingRecursive r q r2
       else if r \<noteq> Null \<and> max_high r \<ge> q \<and> q > high iv
         then findOverlappingRecursive r q r2
       else r2)"
    by (simp add: r1_def r2_def Let_def)
  have s3: "set (findOverlappingRecursive (Node iv mh l r h) q acc)
      = set r2 \<union> {x \<in> intervals r. contains_point q x}"
  proof (cases "r = Null")
    case True
    then show ?thesis unfolding eq r_Null [OF True] by simp
  next
    case False
    show ?thesis
    proof (cases "q < low iv")
      case True
      then show ?thesis unfolding eq skip_r [OF True] using False by (simp add: IHr skip_r [OF True])
    next
      case ge: False
      then show ?thesis unfolding eq using False by (simp add: IHr)
    qed
  qed
  show ?case unfolding s3 s2 s1 by auto
qed

lemma intervals_upd:
  "intervals (updateMaxHigh (updateNodeHeight (Node iv mh l r h))) = insert iv (intervals l \<union> intervals r)"
  by (simp add: Let_def)

lemma upd_max_high:
  "\<exists>M H. updateMaxHigh (updateNodeHeight (Node iv mh l r h)) = Node iv M l r H
     \<and> high iv \<le> M \<and> (l \<noteq> Null \<longrightarrow> max_high l \<le> M) \<and> (r \<noteq> Null \<longrightarrow> max_high r \<le> M)"
  by (cases l; cases r) (auto simp: Let_def)

lemma tree_inv_upd:
  assumes "tree_inv l" "tree_inv r" "\<forall>x \<in> intervals r. low iv \<le> low x"
  shows "tree_inv (updateMaxHigh (updateNodeHeight (Node iv mh l r h)))"
proof -
  obtain M H where u: "updateMaxHigh (updateNodeHeight (Node iv mh l r h)) = Node iv M l r H"
    and M: "high iv \<le> M" "l \<noteq> Null \<longrightarrow> max_high l \<le> M" "r \<noteq> Null \<longrightarrow> max_high r \<le> M"
    using upd_max_high by blast
  have "high x \<le> M" if "x \<in> intervals l" for x
  proof -
    have nn: "l \<noteq> Null" using that by auto
    have "high x \<le> max_high l" by (rule max_high_bound [OF assms(1) nn that])
    then show ?thesis using M(2) nn by simp
  qed
  moreover have "high x \<le> M" if "x \<in> intervals r" for x
  proof -
    have nn: "r \<noteq> Null" using that by auto
    have "high x \<le> max_high r" by (rule max_high_bound [OF assms(2) nn that])
    then show ?thesis using M(3) nn by simp
  qed
  ultimately show ?thesis
    unfolding u using assms M(1) by auto
qed


lemma insertRecursive_exact:
  "tree_inv t \<Longrightarrow> insertRecursive t ni = Inr t' \<Longrightarrow>
   tree_inv t' \<and> intervals t' = insert ni (intervals t)"
proof (induction t arbitrary: t')
  case Null
  then show ?case by auto
next
  case (Node iv mh l r h)
  have il: "tree_inv l" and ir: "tree_inv r"
    and br: "\<forall>x \<in> intervals r. low iv \<le> low x" using Node.prems by simp_all
  show ?case
  proof (cases "low ni < low iv \<or> (low ni = low iv \<and> high ni < high iv)")
    case True
    then have eq: "insertRecursive (Node iv mh l r h) ni =
        (case insertRecursive l ni of Inl e \<Rightarrow> Inl e
         | Inr l' \<Rightarrow> insert_rebalance (Node iv mh l' r h) None)"
      by auto
    then obtain l' where l': "insertRecursive l ni = Inr l'"
        "insert_rebalance (Node iv mh l' r h) None = Inr t'"
      using Node.prems(2) by (auto split: sum.splits)
    have t': "t' = updateMaxHigh (updateNodeHeight (Node iv mh l' r h))"
      using l'(2) unfolding insert_rebalance_None by (simp split: if_splits)
    have l'i: "tree_inv l'" "intervals l' = insert ni (intervals l)"
      using Node.IH(1) [OF il l'(1)] by simp_all
    have ti: "tree_inv t'"
      unfolding t' by (rule tree_inv_upd [OF l'i(1) ir br])
    have "intervals t' = insert ni (intervals (Node iv mh l r h))"
      unfolding t' intervals_upd l'i(2) by auto
    then show ?thesis using ti by blast
  next
    case False
    then have eq: "insertRecursive (Node iv mh l r h) ni =
        (case insertRecursive r ni of Inl e \<Rightarrow> Inl e
         | Inr r' \<Rightarrow> insert_rebalance (Node iv mh l r' h) None)"
      by auto
    then obtain r' where r': "insertRecursive r ni = Inr r'"
        "insert_rebalance (Node iv mh l r' h) None = Inr t'"
      using Node.prems(2) by (auto split: sum.splits)
    have t': "t' = updateMaxHigh (updateNodeHeight (Node iv mh l r' h))"
      using r'(2) unfolding insert_rebalance_None by (simp split: if_splits)
    have r'i: "tree_inv r'" "intervals r' = insert ni (intervals r)"
      using Node.IH(2) [OF ir r'(1)] by simp_all
    have "low iv \<le> low ni" using False by auto
    then have br': "\<forall>x \<in> intervals r'. low iv \<le> low x" using br r'i(2) by auto
    have ti: "tree_inv t'"
      unfolding t' by (rule tree_inv_upd [OF il r'i(1) br'])
    have "intervals t' = insert ni (intervals (Node iv mh l r h))"
      unfolding t' intervals_upd r'i(2) by auto
    then show ?thesis using ti by blast
  qed
qed


lemma tree_run_inserts:
  "only_inserts ops \<Longrightarrow> tree_inv t \<Longrightarrow> tree_run ops t = Inr t' \<Longrightarrow>
   tree_inv t' \<and> intervals t' = intervals t \<union> inserted_intervals ops"
proof (induction ops arbitrary: t)
  case Nil
  then show ?case by simp
next
  case (Cons op ops)
  then obtain lo hi d where op: "op = Insert lo hi d" by (cases op) auto
  obtain t1 where t1: "tree_step op t = Inr t1" "tree_run ops t1 = Inr t'"
    using Cons.prems(3) by (auto split: sum.splits)
  have s1: "tree_inv t1 \<and> intervals t1 = intervals t \<union> (if lo > hi then {} else {Interval lo hi d})"
  proof (cases "lo > hi")
    case True
    then have "t1 = t" using t1(1) op by (simp add: IntervalTree_insert_def)
    then show ?thesis using True Cons.prems(2) by simp
  next
    case False
    then have "insertRecursive t (Interval lo hi d) = Inr t1"
      using t1(1) op by (simp add: IntervalTree_insert_def)
    then show ?thesis
      using insertRecursive_exact [OF Cons.prems(2)] False by auto
  qed
  have "only_inserts ops" using Cons.prems(1) op by simp
  then have "tree_inv t' \<and> intervals t' = intervals t1 \<union> inserted_intervals ops"
    using Cons.IH [of t1] s1 t1(2) by blast
  then show ?case
    using s1 op by auto
qed

lemma point_query_exact:
  assumes "only_inserts ops" "tree_run ops Null = Inr t"
  shows "set (findOverlappingIntervals t q) = {x \<in> inserted_intervals ops. low x \<le> q \<and> q \<le> high x}"
  using tree_run_inserts [OF assms(1) _ assms(2)] find_exact [of t q "[]"]
  by (simp add: findOverlappingIntervals_def contains_point_def)

text \<open>
  C6.  The point query is to return every inserted interval that contains the port,
  after any sequence of insertions.  The sequence of the unit test
  \<open>InsertMultipleNonOverlappingIntervals\<close> does not get that far: the third insertion
  makes the root's balance factor \<open>-2\<close>, and the Right Right test then reads
  \<open>new_interval->low\<close> from the pointer that the recursive call has emptied.  (As long
  as no insertion unbalances a node, the query is exact: \<open>point_query_exact\<close>.)
\<close>

theorem insert_ascending_null_deref:
  "tree_run [Insert 10 20 1, Insert 30 40 2] Null
     = Inr (Node (Interval 10 20 1) 40 Null (Node (Interval 30 40 2) 40 Null Null 1) 2)
   \<and> tree_run [Insert 10 20 1, Insert 30 40 2, Insert 50 60 3] Null = Inl NullDeref"
  by (simp add: IntervalTree_insert_def insert_rebalance_def deref_def Let_def)

text \<open>
  C10.  \<open>IntervalTree::remove(low, high, data_id)\<close> always returns true: on every tree
  that a sequence of insertions and removals has built, for every argument triple, the
  call returns, and the flag it returns is \<open>true\<close>.
\<close>

theorem remove_always_true:
  "tree_run ops Null = Inr t \<Longrightarrow> \<exists>t'. IntervalTree_remove lo hi d t = Inr (True, t')"
proof -
  assume "tree_run ops Null = Inr t"
  then have "heights_pos t" using tree_run_ok [of Null ops t] by simp
  then show ?thesis
    using removeRecursive_ok [of t "Interval lo hi d"] by (auto simp: IntervalTree_remove_def)
qed

theorem remove_always_true_witness:
  "tree_run [Insert 10 20 1, Insert 5 8 2, Remove 5 8 2] Null
     = Inr (Node (Interval 10 20 1) 20 Null Null 1)
   \<and> (\<exists>t'. IntervalTree_remove 1 2 3 (Node (Interval 10 20 1) 20 Null Null 1) = Inr (True, t'))"
proof -
  have r: "tree_run [Insert 10 20 1, Insert 5 8 2, Remove 5 8 2] Null
      = Inr (Node (Interval 10 20 1) 20 Null Null 1)"
    by (simp add: IntervalTree_insert_def IntervalTree_remove_def insert_rebalance_def
        remove_rebalance_def deref_def Let_def)
  show ?thesis using r remove_always_true [OF r, of 1 2 3] by simp
qed

section \<open>The locks: which calls return\<close>

text \<open>
  A wait on a condition that does not hold never ends, and one on a condition that
  holds returns at once.
\<close>

lemma cv_wait_Some: "cv_wait pred l = Some y \<Longrightarrow> pred l"
  by (rule cv_wait.raw_induct [where P = "\<lambda>p l y. p l"]) (auto split: if_splits)

lemma cv_wait_None: "\<not> pred l \<Longrightarrow> cv_wait pred l = None"
  using cv_wait_Some [of pred l] by (cases "cv_wait pred l") auto

lemma cv_wait_closed [code]: "cv_wait pred l = (if pred l then Some l else None)"
proof (cases "pred l")
  case True
  then show ?thesis by (subst cv_wait.simps) simp
next
  case False
  then show ?thesis by (simp add: cv_wait_None)
qed

text \<open>
  A thread that holds the write lock does not get the read lock: \<open>readLock\<close> waits for
  \<open>!writer_active_\<close>, whoever the writer is; only \<open>writeLock\<close> looks at the thread id.
  (Nor could another thread end this wait: \<open>writeUnlock\<close> is the only function that
  clears \<open>writer_active_\<close>, and it returns at once when the caller is not the writer.)
\<close>

lemma readLock_writer: "writer_active l \<Longrightarrow> readLock l = None"
  by (simp add: readLock_def cv_wait_closed)

lemma writeLock_Some: "writeLock l = Some l1 \<Longrightarrow> writer_active l1"
  by (auto simp: writeLock_def cv_wait_closed Let_def split: if_splits)

lemma read_free:
  "readLock ReadWriteLock_new = Some (ReadWriteLock_new\<lparr>active_readers := 1\<rparr>)"
  "readUnlock (ReadWriteLock_new\<lparr>active_readers := 1\<rparr>) = ReadWriteLock_new"
  by (simp_all add: readLock_def readUnlock_def cv_wait_closed ReadWriteLock_new_def)

lemma write_free:
  "writeLock ReadWriteLock_new
     = Some (ReadWriteLock_new\<lparr>writer_active := True, writer_thread_id := this_thread_get_id,
                               recursive_write_count := 1\<rparr>)"
  "writeUnlock (ReadWriteLock_new\<lparr>writer_active := True, writer_thread_id := this_thread_get_id,
                               recursive_write_count := 1\<rparr>) = ReadWriteLock_new"
  by (simp_all add: writeLock_def writeUnlock_def cv_wait_closed ReadWriteLock_new_def
      this_thread_get_id_def Let_def)

lemma write_again:
  "writeLock (ReadWriteLock_new\<lparr>writer_active := True, writer_thread_id := this_thread_get_id,
                               recursive_write_count := 1\<rparr>)
     = Some (ReadWriteLock_new\<lparr>writer_active := True, writer_thread_id := this_thread_get_id,
                               recursive_write_count := 2\<rparr>)"
  "writeUnlock (ReadWriteLock_new\<lparr>writer_active := True, writer_thread_id := this_thread_get_id,
                               recursive_write_count := 2\<rparr>)
     = ReadWriteLock_new\<lparr>writer_active := True, writer_thread_id := this_thread_get_id,
                               recursive_write_count := 1\<rparr>"
  by (simp_all add: writeLock_def writeUnlock_def cv_wait_closed ReadWriteLock_new_def
      this_thread_get_id_def Let_def)

lemma rw_lock_same: "rw_lock rm = l \<Longrightarrow> rm\<lparr>rw_lock := l\<rparr> = rm"
  by auto

lemma spec_lock_same: "specialized_structures_lock st = l \<Longrightarrow> st\<lparr>specialized_structures_lock := l\<rparr> = st"
  by auto

lemma rule_manager_same: "rule_manager st = rm \<Longrightarrow> st\<lparr>rule_manager := rm\<rparr> = st"
  by auto

lemma rules_by_id_same: "rules_by_id rm = m \<Longrightarrow> rm\<lparr>rules_by_id := m\<rparr> = rm"
  by auto

subsection \<open>The rule store\<close>

text \<open>
  \<open>addRule\<close> and \<open>modifyRule\<close> of the rule store call \<open>detectConflict\<close> under their write
  guard.  Whatever the rule store holds and whatever the state of its lock: when
  \<open>addRule\<close> returns, it returns false and the id was in the store; when \<open>modifyRule\<close>
  returns, it returns false and the id was not in the store.
\<close>

lemma detectConflict_writer: "writer_active (rw_lock rm) \<Longrightarrow> detectConflict rule rm = None"
  by (simp add: detectConflict_def rw_ReadLockGuard_def readLock_writer)

lemma RuleManager_addRule_returns:
  assumes "RuleManager_addRule lib rule rm = Some (ok, rm1)"
  shows "\<not> ok" "map_of (rules_by_id rm) (rule_id rule) \<noteq> None"
    "rules_by_id rm1 = rules_by_id rm" "rules_by_priority_cache rm1 = rules_by_priority_cache rm"
proof -
  obtain l where l: "writeLock (rw_lock rm) = Some l"
    using assms by (cases "writeLock (rw_lock rm)") (simp_all add: RuleManager_addRule_def rw_WriteLockGuard_def)
  have w: "writer_active (rw_lock (rm\<lparr>rw_lock := l\<rparr>))"
    using writeLock_Some [OF l] by simp
  have dc: "detectConflict rule (rm\<lparr>rw_lock := l\<rparr>) = None"
    by (rule detectConflict_writer [OF w])
  have ex: "map_of (rules_by_id rm) (rule_id rule) \<noteq> None"
    using assms l dc by (auto simp: RuleManager_addRule_def rw_WriteLockGuard_def split: if_splits)
  then show "map_of (rules_by_id rm) (rule_id rule) \<noteq> None" .
  show "\<not> ok" "rules_by_id rm1 = rules_by_id rm" "rules_by_priority_cache rm1 = rules_by_priority_cache rm"
    using assms l ex by (auto simp: RuleManager_addRule_def rw_WriteLockGuard_def)
qed

lemma RuleManager_addRule_fresh:
  "map_of (rules_by_id rm) (rule_id rule) = None \<Longrightarrow> RuleManager_addRule lib rule rm = None"
  using RuleManager_addRule_returns(2) [of lib rule rm]
  by (cases "RuleManager_addRule lib rule rm") auto

lemma RuleManager_addRule_free:
  assumes "rw_lock rm = ReadWriteLock_new"
  shows "RuleManager_addRule lib rule rm =
           (if map_of (rules_by_id rm) (rule_id rule) \<noteq> None then Some (False, rm) else None)"
proof (cases "map_of (rules_by_id rm) (rule_id rule) = None")
  case True
  have "RuleManager_addRule lib rule rm = None"
  proof (cases "RuleManager_addRule lib rule rm")
    case (Some x)
    then show ?thesis using RuleManager_addRule_returns(2) [of lib rule rm "fst x" "snd x"] True by simp
  qed simp
  then show ?thesis using True by simp
next
  case False
  then show ?thesis
    using assms
    by (auto simp: RuleManager_addRule_def rw_WriteLockGuard_def write_free rw_lock_same)
qed


lemma map_erase_zero: "snd (map_erase k m) = 0 \<longleftrightarrow> map_of m k = None"
  by (induction m) (auto simp: map_erase_def)

lemma map_erase_same: "map_of m k = None \<Longrightarrow> fst (map_erase k m) = m"
  by (induction m) (auto simp: map_erase_def split: if_splits)

lemma RuleManager_modifyRule_returns:
  assumes "RuleManager_modifyRule lib rid new_rule_data rm = Some (ok, rm1)"
  shows "\<not> ok" "map_of (rules_by_id rm) rid = None"
    "rules_by_id rm1 = rules_by_id rm" "rules_by_priority_cache rm1 = rules_by_priority_cache rm"
proof -
  obtain l where l: "writeLock (rw_lock rm) = Some l"
    using assms
    by (cases "writeLock (rw_lock rm)") (simp_all add: RuleManager_modifyRule_def rw_WriteLockGuard_def)
  have w: "writer_active (rw_lock (rm\<lparr>rw_lock := l\<rparr>))"
    using writeLock_Some [OF l] by simp
  have dc: "detectConflict (new_rule_data\<lparr>rule_id := rid\<rparr>) (rm\<lparr>rw_lock := l\<rparr>) = None"
    by (rule detectConflict_writer [OF w])
  show ex: "map_of (rules_by_id rm) rid = None"
    using assms l dc
    by (auto simp: RuleManager_modifyRule_def rw_WriteLockGuard_def split: option.splits)
  show "\<not> ok" "rules_by_id rm1 = rules_by_id rm" "rules_by_priority_cache rm1 = rules_by_priority_cache rm"
    using assms l ex by (auto simp: RuleManager_modifyRule_def rw_WriteLockGuard_def)
qed

lemma RuleManager_modifyRule_existing:
  "map_of (rules_by_id rm) rid \<noteq> None \<Longrightarrow> RuleManager_modifyRule lib rid new_rule_data rm = None"
  using RuleManager_modifyRule_returns(2) [of lib rid new_rule_data rm]
  by (cases "RuleManager_modifyRule lib rid new_rule_data rm") auto

lemma RuleManager_modifyRule_free:
  assumes "rw_lock rm = ReadWriteLock_new"
  shows "RuleManager_modifyRule lib rid new_rule_data rm =
           (if map_of (rules_by_id rm) rid = None then Some (False, rm) else None)"
proof (cases "map_of (rules_by_id rm) rid = None")
  case False
  have "RuleManager_modifyRule lib rid new_rule_data rm = None"
  proof (cases "RuleManager_modifyRule lib rid new_rule_data rm")
    case (Some x)
    then show ?thesis
      using RuleManager_modifyRule_returns(2) [of lib rid new_rule_data rm "fst x" "snd x"] False
      by simp
  qed simp
  then show ?thesis using False by simp
next
  case True
  then show ?thesis
    using assms
    by (auto simp: RuleManager_modifyRule_def rw_WriteLockGuard_def write_free rw_lock_same)
qed

lemma RuleManager_deleteRule_returns:
  assumes "RuleManager_deleteRule lib rid rm = Some (False, rm1)"
  shows "map_of (rules_by_id rm) rid = None"
    "rules_by_id rm1 = rules_by_id rm" "rules_by_priority_cache rm1 = rules_by_priority_cache rm"
proof -
  obtain l where l: "writeLock (rw_lock rm) = Some l"
    using assms
    by (cases "writeLock (rw_lock rm)") (simp_all add: RuleManager_deleteRule_def rw_WriteLockGuard_def)
  obtain m' n where mn: "map_erase rid (rules_by_id rm) = (m', n)"
    by (cases "map_erase rid (rules_by_id rm)") auto
  have n: "n = 0"
    using assms l mn
    by (auto simp: RuleManager_deleteRule_def rw_WriteLockGuard_def split: if_splits)
  then show none: "map_of (rules_by_id rm) rid = None"
    using map_erase_zero [of rid "rules_by_id rm"] mn by simp
  have "m' = rules_by_id rm"
    using map_erase_same [OF none] mn by simp
  then show "rules_by_id rm1 = rules_by_id rm" "rules_by_priority_cache rm1 = rules_by_priority_cache rm"
    using assms l mn n by (auto simp: RuleManager_deleteRule_def rw_WriteLockGuard_def)
qed

lemma RuleManager_deleteRule_free:
  assumes "rw_lock rm = ReadWriteLock_new"
  shows "RuleManager_deleteRule lib rid rm =
           Some (if map_of (rules_by_id rm) rid = None then (False, rm)
                 else (True, rebuildPriorityCache lib
                               (rm\<lparr>rules_by_id := fst (map_erase rid (rules_by_id rm))\<rparr>)))"
proof -
  obtain m' n where mn: "map_erase rid (rules_by_id rm) = (m', n)"
    by (cases "map_erase rid (rules_by_id rm)") auto
  show ?thesis
  proof (cases "map_of (rules_by_id rm) rid = None")
    case True
    then have "n = 0" "m' = rules_by_id rm"
      using map_erase_zero [of rid "rules_by_id rm"] map_erase_same [OF True] mn by simp_all
    then show ?thesis
      using True assms mn
      by (auto simp: RuleManager_deleteRule_def rw_WriteLockGuard_def write_free rw_lock_same)
  next
    case False
    then have "n > 0"
      using map_erase_zero [of rid "rules_by_id rm"] mn by auto
    then show ?thesis
      using False assms mn
      by (auto simp: RuleManager_deleteRule_def rw_WriteLockGuard_def write_free
          rebuildPriorityCache_def rw_lock_same)
  qed
qed

lemma getRule_returns:
  assumes "getRule rid rm = Some (x, rm1)"
  shows "x = rule_at rm rid" "rules_by_id rm1 = rules_by_id rm"
    "rules_by_priority_cache rm1 = rules_by_priority_cache rm"
  using assms
  by (auto simp: getRule_def rw_ReadLockGuard_def rule_at_def split: bind_splits)

lemma getRule_free:
  "rw_lock rm = ReadWriteLock_new \<Longrightarrow> getRule rid rm = Some (rule_at rm rid, rm)"
  by (auto simp: getRule_def rw_ReadLockGuard_def read_free rule_at_def rw_lock_same)

lemma getRulesByPriority_free:
  "rw_lock rm = ReadWriteLock_new \<Longrightarrow> getRulesByPriority rm = Some (rules_by_priority_cache rm, rm)"
  by (auto simp: getRulesByPriority_def rw_ReadLockGuard_def read_free rw_lock_same)

lemma getAllRules_free:
  "rw_lock rm = ReadWriteLock_new \<Longrightarrow> getAllRules rm = Some (rules_by_id rm, rm)"
  by (auto simp: getAllRules_def rw_ReadLockGuard_def read_free rw_lock_same)

lemma incrementRuleMatchCount_free:
  "rw_lock rm = ReadWriteLock_new \<Longrightarrow>
   incrementRuleMatchCount rid ts rm =
     Some (case map_of (rules_by_id rm) rid of
             Some r \<Rightarrow>
               (True, rm\<lparr>rules_by_id :=
                  map_assign rid (r\<lparr>match_count := match_count r + 1, last_match_time := ts\<rparr>)
                    (rules_by_id rm)\<rparr>)
           | None \<Rightarrow> (False, rm))"
  by (auto simp: incrementRuleMatchCount_def rw_WriteLockGuard_def write_free rw_lock_same
      split: option.splits)

lemma RuleManager_resetRuleStatistics_free:
  "rw_lock rm = ReadWriteLock_new \<Longrightarrow>
   RuleManager_resetRuleStatistics rid rm =
     Some (case map_of (rules_by_id rm) rid of
             Some r \<Rightarrow>
               (True, rm\<lparr>rules_by_id :=
                  map_assign rid (r\<lparr>match_count := 0, last_match_time := 0\<rparr>) (rules_by_id rm)\<rparr>)
           | None \<Rightarrow> (False, rm))"
  by (auto simp: RuleManager_resetRuleStatistics_def rw_WriteLockGuard_def write_free rw_lock_same
      split: option.splits)

lemma resetAllRuleStatistics_free:
  "rw_lock rm = ReadWriteLock_new \<Longrightarrow>
   resetAllRuleStatistics rm =
     Some (True, rm\<lparr>rules_by_id :=
        map (\<lambda>kv. (fst kv, (snd kv)\<lparr>match_count := 0, last_match_time := 0\<rparr>)) (rules_by_id rm)\<rparr>)"
  by (auto simp: resetAllRuleStatistics_def rw_WriteLockGuard_def write_free rw_lock_same)

subsection \<open>The classifier\<close>

lemma data_of_lock [simp]:
  "data_of (st\<lparr>specialized_structures_lock := l\<rparr>) = data_of st"
  by (simp add: data_of_def)

lemma rule_manager_getRule_returns:
  assumes "rule_manager_getRule rid st = Some (x, st1)"
  shows "x = rule_at (rule_manager st) rid" "data_of st1 = data_of st"
    "specialized_structures_lock st1 = specialized_structures_lock st"
proof -
  obtain rm1 where g: "getRule rid (rule_manager st) = Some (x, rm1)" and st1: "st1 = st\<lparr>rule_manager := rm1\<rparr>"
    using assms by (auto simp: rule_manager_getRule_def split: bind_splits)
  show "x = rule_at (rule_manager st) rid" by (rule getRule_returns(1) [OF g])
  show "data_of st1 = data_of st"
    using getRule_returns(2,3) [OF g] st1 by (simp add: data_of_def)
  show "specialized_structures_lock st1 = specialized_structures_lock st"
    using st1 by simp
qed

lemma rule_manager_getRule_free:
  "rw_lock (rule_manager st) = ReadWriteLock_new \<Longrightarrow>
   rule_manager_getRule rid st = Some (rule_at (rule_manager st) rid, st)"
  by (simp add: rule_manager_getRule_def getRule_free)

lemma spec_WriteLockGuard_data:
  assumes "spec_WriteLockGuard body st = Some (x, st1)"
    and "\<And>s y s1. body s = Some (y, s1) \<Longrightarrow> data_of s1 = data_of s"
  shows "data_of st1 = data_of st"
proof -
  obtain l s1 where "writeLock (specialized_structures_lock st) = Some l"
    and b: "body (st\<lparr>specialized_structures_lock := l\<rparr>) = Some (x, s1)"
    and st1: "st1 = s1\<lparr>specialized_structures_lock := writeUnlock (specialized_structures_lock s1)\<rparr>"
    using assms(1) by (auto simp: spec_WriteLockGuard_def split: bind_splits)
  show ?thesis using assms(2) [OF b] st1 by simp
qed

lemma removeRuleFromSpecializedStructures_data:
  assumes "removeRuleFromSpecializedStructures rid st = Some (x, st1)"
  shows "data_of st1 = data_of st"
  using assms unfolding removeRuleFromSpecializedStructures_def
proof (rule spec_WriteLockGuard_data)
  fix s y s1
  assume "(do {
             (rule_ptr, st1) \<leftarrow> rule_manager_getRule rid s;
             (case rule_ptr of None \<Rightarrow> Some (True, st1) | Some rule \<Rightarrow> Some (True, st1))
           }) = Some (y, s1)"
  then obtain p where "rule_manager_getRule rid s = Some (p, s1)"
    by (auto split: bind_splits option.splits)
  then show "data_of s1 = data_of s" by (rule rule_manager_getRule_returns(2))
qed

lemma updateSpecializedStructuresForRule_fails:
  assumes "updateSpecializedStructuresForRule lib rid st = Some (False, st1)"
  shows "rule_at (rule_manager st) rid = None" "data_of st1 = data_of st"
proof -
  obtain l s1 where "writeLock (specialized_structures_lock st) = Some l"
    and b: "(do {
               (rule_ptr, st1) \<leftarrow> rule_manager_getRule rid (st\<lparr>specialized_structures_lock := l\<rparr>);
               (case rule_ptr of
                  None \<Rightarrow> Some (False, st1)
                | Some rule \<Rightarrow>
                    Some (True, if enabled rule \<and> use_bloom_filter st1
                                then bloom_insert lib (PacketFilter_toString (rule_filter rule)) st1
                                else st1))
             }) = Some (False, s1)"
    and st1: "st1 = s1\<lparr>specialized_structures_lock := writeUnlock (specialized_structures_lock s1)\<rparr>"
    using assms
    by (auto simp: updateSpecializedStructuresForRule_def spec_WriteLockGuard_def split: bind_splits)
  obtain p where g: "rule_manager_getRule rid (st\<lparr>specialized_structures_lock := l\<rparr>) = Some (p, s1)"
    and p: "p = None"
    using b by (auto split: bind_splits option.splits)
  show "rule_at (rule_manager st) rid = None"
    using rule_manager_getRule_returns(1) [OF g] p by simp
  show "data_of st1 = data_of st"
    using rule_manager_getRule_returns(2) [OF g] st1 by simp
qed

lemma addRule_returns:
  assumes "addRule lib rule st = Some (ok, st1)"
  shows "\<not> ok" "rule_at (rule_manager st) (rule_id rule) \<noteq> None" "data_of st1 = data_of st"
proof -
  obtain ok0 rm where r: "RuleManager_addRule lib rule (rule_manager st) = Some (ok0, rm)"
    using assms by (auto simp: addRule_def split: bind_splits)
  have n: "\<not> ok0" by (rule RuleManager_addRule_returns(1) [OF r])
  then have e: "ok = False" "st1 = st\<lparr>rule_manager := rm\<rparr>"
    using assms r by (simp_all add: addRule_def)
  show "\<not> ok" using e by simp
  show "rule_at (rule_manager st) (rule_id rule) \<noteq> None"
    using RuleManager_addRule_returns(2) [OF r] by (simp add: rule_at_def)
  show "data_of st1 = data_of st"
    using RuleManager_addRule_returns(3,4) [OF r] e by (simp add: data_of_def)
qed

lemma addRule_free:
  assumes "locks_free st"
  shows "addRule lib rule st =
           (if rule_at (rule_manager st) (rule_id rule) \<noteq> None then Some (False, st) else None)"
  using assms
  by (simp add: addRule_def locks_free_def RuleManager_addRule_free rule_at_def)

lemma modifyRule_returns:
  assumes "modifyRule lib rid new_rule_data st = Some (ok, st1)"
  shows "\<not> ok" "rule_at (rule_manager st) rid = None" "data_of st1 = data_of st"
proof -
  obtain ok0 rm where r: "RuleManager_modifyRule lib rid new_rule_data (rule_manager st) = Some (ok0, rm)"
    using assms by (auto simp: modifyRule_def split: bind_splits)
  have n: "\<not> ok0" by (rule RuleManager_modifyRule_returns(1) [OF r])
  then have e: "ok = False" "st1 = st\<lparr>rule_manager := rm\<rparr>"
    using assms r by (simp_all add: modifyRule_def)
  show "\<not> ok" using e by simp
  show "rule_at (rule_manager st) rid = None"
    using RuleManager_modifyRule_returns(2) [OF r] by (simp add: rule_at_def)
  show "data_of st1 = data_of st"
    using RuleManager_modifyRule_returns(3,4) [OF r] e by (simp add: data_of_def)
qed

lemma modifyRule_free:
  assumes "locks_free st"
  shows "modifyRule lib rid new_rule_data st =
           (if rule_at (rule_manager st) rid = None then Some (False, st) else None)"
  using assms
  by (simp add: modifyRule_def locks_free_def RuleManager_modifyRule_free rule_at_def)

lemma deleteRule_fails:
  assumes "deleteRule lib rid st = Some (False, st1)"
  shows "rule_at (rule_manager st) rid = None" "data_of st1 = data_of st"
proof -
  obtain removed sA ok rm where a: "spec_WriteLockGuard (removeRuleFromSpecializedStructures rid) st = Some (removed, sA)"
    and d: "RuleManager_deleteRule lib rid (rule_manager sA) = Some (ok, rm)"
    and r: "(if \<not> ok then Some (False, sA\<lparr>rule_manager := rm\<rparr>) else Some (True, sA\<lparr>rule_manager := rm\<rparr>))
              = Some (False, st1)"
    using assms by (auto simp: deleteRule_def Let_def split: bind_splits)
  have ok: "\<not> ok" and st1: "st1 = sA\<lparr>rule_manager := rm\<rparr>"
    using r by (auto split: if_splits)
  have dA: "data_of sA = data_of st"
    using a by (rule spec_WriteLockGuard_data) (rule removeRuleFromSpecializedStructures_data)
  have d': "RuleManager_deleteRule lib rid (rule_manager sA) = Some (False, rm)"
    using d ok by simp
  show "rule_at (rule_manager st) rid = None"
    using RuleManager_deleteRule_returns(1) [OF d'] dA by (simp add: rule_at_def data_of_def)
  show "data_of st1 = data_of st"
    using RuleManager_deleteRule_returns(2,3) [OF d'] dA st1 by (simp add: data_of_def)
qed

lemma removeRuleFromSpecializedStructures_held:
  assumes "specialized_structures_lock st
             = ReadWriteLock_new\<lparr>writer_active := True, writer_thread_id := this_thread_get_id,
                                   recursive_write_count := 1\<rparr>"
    and "rw_lock (rule_manager st) = ReadWriteLock_new"
  shows "removeRuleFromSpecializedStructures rid st = Some (True, st)"
proof -
  let ?l2 = "ReadWriteLock_new\<lparr>writer_active := True, writer_thread_id := this_thread_get_id,
                                   recursive_write_count := 2\<rparr>"
  have g: "rule_manager_getRule rid (st\<lparr>specialized_structures_lock := ?l2\<rparr>)
      = Some (rule_at (rule_manager st) rid, st\<lparr>specialized_structures_lock := ?l2\<rparr>)"
    using assms(2) rule_manager_getRule_free [of "st\<lparr>specialized_structures_lock := ?l2\<rparr>" rid]
    by simp
  show ?thesis
    using assms(1)
    by (auto simp: removeRuleFromSpecializedStructures_def spec_WriteLockGuard_def write_again g
        spec_lock_same split: option.splits)
qed

lemma remove_block_free:
  assumes "locks_free st"
  shows "spec_WriteLockGuard (removeRuleFromSpecializedStructures rid) st = Some (True, st)"
proof -
  let ?l1 = "ReadWriteLock_new\<lparr>writer_active := True, writer_thread_id := this_thread_get_id,
                                   recursive_write_count := 1\<rparr>"
  have "removeRuleFromSpecializedStructures rid (st\<lparr>specialized_structures_lock := ?l1\<rparr>)
      = Some (True, st\<lparr>specialized_structures_lock := ?l1\<rparr>)"
    using assms by (intro removeRuleFromSpecializedStructures_held) (simp_all add: locks_free_def)
  then show ?thesis
    using assms by (simp add: spec_WriteLockGuard_def locks_free_def write_free spec_lock_same)
qed

lemma deleteRule_free:
  assumes "locks_free st"
  shows "deleteRule lib rid st =
           Some (if rule_at (rule_manager st) rid = None then (False, st)
                 else (True, st\<lparr>rule_manager :=
                         rebuildPriorityCache lib
                           ((rule_manager st)\<lparr>rules_by_id :=
                               fst (map_erase rid (rules_by_id (rule_manager st)))\<rparr>)\<rparr>))"
  using assms
  by (simp add: deleteRule_def remove_block_free [OF assms] RuleManager_deleteRule_free
      locks_free_def rule_at_def rule_manager_same)

lemma classify_free:
  assumes "locks_free st"
  shows "classify lib ts header st =
           (case classify_loop (rule_manager st) (rules_by_priority_cache (rule_manager st)) header of
              Some rule \<Rightarrow>
                Some (\<lparr>matched = True, matched_rule_id = rule_id rule,
                        actions = ClassificationRule.actions rule\<rparr>,
                      st\<lparr>rule_manager :=
                           snd (the (incrementRuleMatchCount (rule_id rule) ts (rule_manager st)))\<rparr>)
            | None \<Rightarrow> Some (\<lparr>matched = False, matched_rule_id = -1, actions = ActionList_default\<rparr>, st))"
proof -
  let ?r1 = "ReadWriteLock_new\<lparr>active_readers := 1\<rparr>"
  have rw: "rw_lock (rule_manager st) = ReadWriteLock_new"
    and sp: "specialized_structures_lock st = ReadWriteLock_new"
    using assms by (simp_all add: locks_free_def)
  show ?thesis
  proof (cases "classify_loop (rule_manager st) (rules_by_priority_cache (rule_manager st)) header")
    case None
    then show ?thesis
      using rw sp
      by (simp add: classify_def spec_ReadLockGuard_def read_free getRulesByPriority_free
          ClassificationResult_default_def Let_def rule_manager_same spec_lock_same)
  next
    case (Some rule)
    obtain c rm where i: "incrementRuleMatchCount (rule_id rule) ts (rule_manager st) = Some (c, rm)"
      using incrementRuleMatchCount_free [OF rw, of "rule_id rule" ts]
      by (cases "map_of (rules_by_id (rule_manager st)) (rule_id rule)") auto
    show ?thesis
      using rw sp Some i
      by (simp add: classify_def spec_ReadLockGuard_def read_free getRulesByPriority_free
          Let_def spec_lock_same)
  qed
qed

lemma classify_returns: "locks_free st \<Longrightarrow> classify lib ts header st \<noteq> None"
  by (simp add: classify_free split: option.splits)

lemma getStatistics_free:
  "locks_free st \<Longrightarrow>
   getStatistics st = Some (map (\<lambda>kv. (fst kv, match_count (snd kv))) (rules_by_id (rule_manager st)), st)"
  by (simp add: getStatistics_def locks_free_def getAllRules_free rule_manager_same)

lemma getRuleStatistics_free:
  "locks_free st \<Longrightarrow>
   getRuleStatistics rid st =
     Some (case rule_at (rule_manager st) rid of Some rule \<Rightarrow> match_count rule | None \<Rightarrow> 0, st)"
  by (simp add: getRuleStatistics_def locks_free_def rule_manager_getRule_free)

lemma resetStatistics_free:
  "locks_free st \<Longrightarrow>
   resetStatistics st =
     Some (st\<lparr>rule_manager := (rule_manager st)\<lparr>rules_by_id :=
        map (\<lambda>kv. (fst kv, (snd kv)\<lparr>match_count := 0, last_match_time := 0\<rparr>))
          (rules_by_id (rule_manager st))\<rparr>\<rparr>)"
  by (simp add: resetStatistics_def locks_free_def resetAllRuleStatistics_free)

lemma resetRuleStatistics_free:
  "locks_free st \<Longrightarrow>
   resetRuleStatistics rid st =
     Some (st\<lparr>rule_manager :=
        snd (the (RuleManager_resetRuleStatistics rid (rule_manager st)))\<rparr>)"
  by (simp add: resetRuleStatistics_def locks_free_def RuleManager_resetRuleStatistics_free
      split: option.splits)

lemma addRule_fails_free: "locks_free st \<Longrightarrow> addRule lib rule st = Some (ok, st1) \<Longrightarrow> st1 = st"
  by (simp add: addRule_free split: if_splits)

lemma modifyRule_fails_free:
  "locks_free st \<Longrightarrow> modifyRule lib rid new_rule_data st = Some (ok, st1) \<Longrightarrow> st1 = st"
  by (simp add: modifyRule_free split: if_splits)

lemma deleteRule_fails_free:
  "locks_free st \<Longrightarrow> deleteRule lib rid st = Some (False, st1) \<Longrightarrow> st1 = st"
  by (simp add: deleteRule_free split: if_splits)

text \<open>
  A new classifier: \<open>addRule\<close> does not return, and every other call returns and leaves
  the classifier as it was constructed.
\<close>

lemma locks_free_new: "locks_free (PacketClassifier_new lib e)"
  by (simp add: locks_free_def PacketClassifier_new_def RuleManager_new_def)

lemma rule_at_new: "rule_at (rule_manager (PacketClassifier_new lib e)) rid = None"
  by (simp add: rule_at_def PacketClassifier_new_def RuleManager_new_def)

lemma addRule_new: "addRule lib rule (PacketClassifier_new lib e) = None"
  by (simp add: addRule_free [OF locks_free_new] rule_at_new)

lemma do_call_new:
  "do_call lib c (PacketClassifier_new lib e) =
     (case c of AddRule rule \<Rightarrow> None | _ \<Rightarrow> Some (PacketClassifier_new lib e))"
proof (cases c)
  case (AddRule rule)
  then show ?thesis by (simp add: addRule_new)
next
  case (DeleteRule rid)
  then show ?thesis by (simp add: deleteRule_free [OF locks_free_new] rule_at_new)
next
  case (ModifyRule rid new_rule_data)
  then show ?thesis by (simp add: modifyRule_free [OF locks_free_new] rule_at_new)
next
  case (Classify header ts)
  have "classify_loop (rule_manager (PacketClassifier_new lib e))
          (rules_by_priority_cache (rule_manager (PacketClassifier_new lib e))) header = None"
    by (simp add: PacketClassifier_new_def RuleManager_new_def)
  then show ?thesis using Classify by (simp add: classify_free [OF locks_free_new])
next
  case GetStatistics
  then show ?thesis by (simp add: getStatistics_free [OF locks_free_new])
next
  case (GetRuleStatistics rid)
  then show ?thesis by (simp add: getRuleStatistics_free [OF locks_free_new])
next
  case ResetStatistics
  have "rules_by_id (rule_manager (PacketClassifier_new lib e)) = []"
    by (simp add: PacketClassifier_new_def RuleManager_new_def)
  then show ?thesis
    using ResetStatistics
    by (simp add: resetStatistics_free [OF locks_free_new] rule_manager_same rules_by_id_same)
next
  case (ResetRuleStatistics rid)
  have "rw_lock (rule_manager (PacketClassifier_new lib e)) = ReadWriteLock_new"
    "map_of (rules_by_id (rule_manager (PacketClassifier_new lib e))) rid = None"
    by (simp_all add: PacketClassifier_new_def RuleManager_new_def)
  then show ?thesis
    using ResetRuleStatistics
    by (simp add: resetRuleStatistics_free [OF locks_free_new]
        RuleManager_resetRuleStatistics_free rule_manager_same)
qed

lemma run_new:
  "run lib calls (PacketClassifier_new lib e) =
     (if list_ex is_AddRule calls then None else Some (PacketClassifier_new lib e))"
proof (induction calls)
  case Nil
  then show ?case by simp
next
  case (Cons c calls)
  then show ?case by (cases c) (simp_all add: do_call_new)
qed


section \<open>Failing mutations\<close>

text \<open>
  C4.  A mutation that reports failure leaves the rule store, the tries, the trees and
  the Bloom filter exactly as they were, and, when no lock was held as the call started,
  the locks as well, that is the whole classifier: the first three conjuncts, one for
  each of \<open>addRule\<close>, \<open>modifyRule\<close> and \<open>deleteRule\<close>.  The source has no statement
  that reverts the rule store.  The last three conjuncts say why none is ever needed:
  the update of the derived structures fails only for an id that the rule store does
  not hold, and \<open>addRule\<close> and \<open>modifyRule\<close> of the rule store never report success, so
  that the branch ``store updated, index update failed'' is never taken.
\<close>

theorem failed_mutation_leaves_state:
  "(addRule lib rule st = Some (False, st1) \<longrightarrow>
      data_of st1 = data_of st \<and> (locks_free st \<longrightarrow> st1 = st))
   \<and> (modifyRule lib rid new_rule_data st = Some (False, st2) \<longrightarrow>
      data_of st2 = data_of st \<and> (locks_free st \<longrightarrow> st2 = st))
   \<and> (deleteRule lib rid st = Some (False, st3) \<longrightarrow>
      data_of st3 = data_of st \<and> (locks_free st \<longrightarrow> st3 = st))
   \<and> (updateSpecializedStructuresForRule lib rid st = Some (False, st4) \<longrightarrow>
      rule_at (rule_manager st) rid = None)
   \<and> RuleManager_addRule lib rule rm \<noteq> Some (True, rm1)
   \<and> RuleManager_modifyRule lib rid new_rule_data rm \<noteq> Some (True, rm2)"
proof (intro conjI impI)
  show "data_of st1 = data_of st" if "addRule lib rule st = Some (False, st1)"
    using that by (rule addRule_returns(3))
  show "st1 = st" if "addRule lib rule st = Some (False, st1)" "locks_free st"
    using that(2,1) by (rule addRule_fails_free)
  show "data_of st2 = data_of st" if "modifyRule lib rid new_rule_data st = Some (False, st2)"
    using that by (rule modifyRule_returns(3))
  show "st2 = st" if "modifyRule lib rid new_rule_data st = Some (False, st2)" "locks_free st"
    using that(2,1) by (rule modifyRule_fails_free)
  show "data_of st3 = data_of st" if "deleteRule lib rid st = Some (False, st3)"
    using that by (rule deleteRule_fails(2))
  show "st3 = st" if "deleteRule lib rid st = Some (False, st3)" "locks_free st"
    using that(2,1) by (rule deleteRule_fails_free)
  show "rule_at (rule_manager st) rid = None"
    if "updateSpecializedStructuresForRule lib rid st = Some (False, st4)"
    using that by (rule updateSpecializedStructuresForRule_fails(1))
  show "RuleManager_addRule lib rule rm \<noteq> Some (True, rm1)"
    using RuleManager_addRule_returns(1) [of lib rule rm True rm1] by blast
  show "RuleManager_modifyRule lib rid new_rule_data rm \<noteq> Some (True, rm2)"
    using RuleManager_modifyRule_returns(1) [of lib rid new_rule_data rm True rm2] by blast
qed

theorem failed_mutation_leaves_state_witness:
  "addRule lib_stable S2_rule_A w_state = Some (False, w_state)
   \<and> modifyRule lib_stable 7 S2_rule_B w_state = Some (False, w_state)
   \<and> deleteRule lib_stable 7 w_state = Some (False, w_state)
   \<and> updateSpecializedStructuresForRule lib_stable 7 w_state = Some (False, w_state)
   \<and> locks_free w_state
   \<and> rule_at (rule_manager w_state) 7 = None"
proof -
  have a: "addRule lib_stable S2_rule_A w_state = Some (False, w_state)" by code_simp
  have m: "modifyRule lib_stable 7 S2_rule_B w_state = Some (False, w_state)" by code_simp
  have d: "deleteRule lib_stable 7 w_state = Some (False, w_state)" by code_simp
  have u: "updateSpecializedStructuresForRule lib_stable 7 w_state = Some (False, w_state)"
    by code_simp
  have f: "locks_free w_state" by code_simp
  note t = failed_mutation_leaves_state [where lib = lib_stable and rule = S2_rule_A
      and st = w_state and ?st1.0 = w_state and rid = 7 and new_rule_data = S2_rule_B
      and ?st2.0 = w_state and ?st3.0 = w_state and ?st4.0 = w_state]
  have n: "rule_at (rule_manager w_state) 7 = None" using t u by blast
  show ?thesis by (intro conjI) (rule a m d u f n)+
qed

section \<open>Calls that do not return\<close>

text \<open>
  \<open>PacketFilter::matches\<close> does not look at the prefixes; on filters without prefixes it
  is the filter semantics of the specification.
\<close>

lemma matches_ignores_prefixes:
  "matches (f\<lparr>source_ip_prefix := p, dest_ip_prefix := q\<rparr>) header = matches f header"
  by (simp add: matches_def)

lemma matches_without_prefixes:
  "source_ip_prefix f = [] \<Longrightarrow> dest_ip_prefix f = [] \<Longrightarrow>
   matches f header = reference_matches f header"
  by (auto simp: matches_def reference_matches_def reference_prefix_matches_def not_less)

text \<open>
  C1.  The claim: after any sequence of \<open>addRule\<close>, \<open>deleteRule\<close>, \<open>modifyRule\<close>,
  \<open>classify\<close> agrees with a linear scan that evaluates the whole filter, the IP prefixes
  included; in scenario S2 the packet with source address \<open>0x0A020203\<close> gets rule 1.
  In the code, scenario S2 ends in its first call: \<open>RuleManager::addRule\<close> holds the
  write lock on \<open>rw_lock_\<close> when it calls \<open>detectConflict\<close>, which waits for the read lock
  on \<open>rw_lock_\<close>, so \<open>addRule\<close> with a new id does not return and \<open>classify\<close> is never
  reached.  The reference scan gives rule 1 for the two rules and the packet.  Apart
  from the lock, \<open>PacketFilter::matches\<close> accepts the packet for rule 2, whose prefix
  \<open>10.1.0.0/16\<close> does not cover the address; on every filter without prefixes it
  decides as the filter semantics of the specification does.
\<close>

theorem S2_addRule_never_returns:
  "addRule lib S2_rule_A (PacketClassifier_new lib e) = None
   \<and> run lib S2_calls (PacketClassifier_new lib e) = None
   \<and> reference_classify [S2_rule_A, S2_rule_B] S2_packet
       = \<lparr>matched = True, matched_rule_id = 1, actions = ClassificationRule.actions S2_rule_A\<rparr>
   \<and> matches (rule_filter S2_rule_B) S2_packet
   \<and> \<not> reference_matches (rule_filter S2_rule_B) S2_packet
   \<and> (source_ip_prefix f = [] \<and> dest_ip_prefix f = [] \<longrightarrow>
        matches f header = reference_matches f header)"
proof -
  have a: "addRule lib S2_rule_A (PacketClassifier_new lib e) = None" by (rule addRule_new)
  have b: "run lib S2_calls (PacketClassifier_new lib e) = None"
    by (simp add: run_new S2_calls_def)
  have c: "reference_classify [S2_rule_A, S2_rule_B] S2_packet
       = \<lparr>matched = True, matched_rule_id = 1, actions = ClassificationRule.actions S2_rule_A\<rparr>"
    by code_simp
  have d: "matches (rule_filter S2_rule_B) S2_packet" by code_simp
  have e: "\<not> reference_matches (rule_filter S2_rule_B) S2_packet" by code_simp
  have f: "source_ip_prefix f = [] \<and> dest_ip_prefix f = [] \<longrightarrow>
        matches f header = reference_matches f header"
    by (simp add: matches_without_prefixes)
  show ?thesis by (intro conjI) (rule a b c d e f)+
qed

theorem S2_addRule_never_returns_witness:
  "addRule lib_stable S2_rule_A (PacketClassifier_new lib_stable False) = None
   \<and> run lib_stable S2_calls (PacketClassifier_new lib_stable False) = None
   \<and> matched_rule_id (reference_classify [S2_rule_A, S2_rule_B] S2_packet) = 1
   \<and> matches (rule_filter S2_rule_B) S2_packet
   \<and> \<not> reference_matches (rule_filter S2_rule_B) S2_packet
   \<and> source_ip_prefix (rule_filter S3_rule) = []
   \<and> dest_ip_prefix (rule_filter S3_rule) = []
   \<and> matches (rule_filter S3_rule) S2_packet
   \<and> reference_matches (rule_filter S3_rule) S2_packet
   \<and> \<not> matches (rule_filter S3_rule) (S2_packet\<lparr>dest_port := 500\<rparr>)
   \<and> \<not> reference_matches (rule_filter S3_rule) (S2_packet\<lparr>dest_port := 500\<rparr>)"
proof -
  note t = S2_addRule_never_returns [of lib_stable False]
  have i: "matched_rule_id (reference_classify [S2_rule_A, S2_rule_B] S2_packet) = 1"
    using t by simp
  have p: "source_ip_prefix (rule_filter S3_rule) = []" "dest_ip_prefix (rule_filter S3_rule) = []"
    by code_simp+
  have m: "matches (rule_filter S3_rule) S2_packet"
    "\<not> matches (rule_filter S3_rule) (S2_packet\<lparr>dest_port := 500\<rparr>)"
    by code_simp+
  have r: "reference_matches (rule_filter S3_rule) S2_packet"
    using t [of "rule_filter S3_rule" S2_packet] p m(1) by blast
  have n: "\<not> reference_matches (rule_filter S3_rule) (S2_packet\<lparr>dest_port := 500\<rparr>)"
    using t [of "rule_filter S3_rule" "S2_packet\<lparr>dest_port := 500\<rparr>"] p m(2) by blast
  show ?thesis using t i p m r n by blast
qed

text \<open>
  C5.  The claim: \<open>addRule\<close> rejects a rule with a port range \<open>[lo, hi]\<close>, \<open>lo > hi\<close>
  (it returns failure), and the rule does not enter the store.  Given the rule with
  source ports \<open>[100, 50]\<close>, \<open>addRule\<close> on a new classifier does not return (the wait of
  C1).  No statement on its path looks at the range: whenever \<open>addRule\<close> returns, it
  returns false and the id was in the store already.  \<open>IntervalTree::insert\<close>, given the
  same range, refuses it.
\<close>

theorem addRule_inverted_range_never_returns:
  "source_port_high (rule_filter inverted_rule) < source_port_low (rule_filter inverted_rule)
   \<and> addRule lib inverted_rule (PacketClassifier_new lib e) = None
   \<and> (addRule lib rule st = Some (ok, st1) \<longrightarrow>
        \<not> ok \<and> rule_at (rule_manager st) (rule_id rule) \<noteq> None)
   \<and> IntervalTree_insert 100 50 1 Null = Inr Null"
proof (intro conjI impI)
  show "source_port_high (rule_filter inverted_rule) < source_port_low (rule_filter inverted_rule)"
    by code_simp
  show "addRule lib inverted_rule (PacketClassifier_new lib e) = None" by (rule addRule_new)
  show "IntervalTree_insert 100 50 1 Null = Inr Null" by (simp add: IntervalTree_insert_def)
  assume a: "addRule lib rule st = Some (ok, st1)"
  show "\<not> ok" by (rule addRule_returns(1) [OF a])
  show "rule_at (rule_manager st) (rule_id rule) \<noteq> None" by (rule addRule_returns(2) [OF a])
qed

theorem addRule_inverted_range_never_returns_witness:
  "addRule lib_stable inverted_rule w_state = Some (False, w_state)
   \<and> rule_at (rule_manager w_state) (rule_id inverted_rule) = Some S2_rule_A"
proof -
  have a: "addRule lib_stable inverted_rule w_state = Some (False, w_state)" by code_simp
  have b: "rule_at (rule_manager w_state) (rule_id inverted_rule) = Some S2_rule_A" by code_simp
  note t = addRule_inverted_range_never_returns [where lib = lib_stable and rule = inverted_rule
      and st = w_state and ok = False and ?st1.0 = w_state]
  have "rule_at (rule_manager w_state) (rule_id inverted_rule) \<noteq> None" using t a by blast
  then show ?thesis using a b by blast
qed





section \<open>Classification\<close>

lemma classify_bloom:
  "classify lib ts header (st\<lparr>bloom_filter := b, use_bloom_filter := u\<rparr>)
     = map_option (\<lambda>x. (fst x, (snd x)\<lparr>bloom_filter := b, use_bloom_filter := u\<rparr>))
         (classify lib ts header st)"
  by (auto simp: classify_def spec_ReadLockGuard_def Let_def split: bind_splits option.splits)

lemma classify_new:
  "map_option fst (classify lib ts header (PacketClassifier_new lib e))
     = Some \<lparr>matched = False, matched_rule_id = -1, actions = ActionList_default\<rparr>"
proof -
  have "classify_loop (rule_manager (PacketClassifier_new lib e))
          (rules_by_priority_cache (rule_manager (PacketClassifier_new lib e))) header = None"
    by (simp add: PacketClassifier_new_def RuleManager_new_def)
  then show ?thesis by (simp add: classify_free [OF locks_free_new])
qed

text \<open>
  C8.  The Bloom filter never decides a classification.  Whatever the filter holds and
  whether it is in use or not, \<open>classify\<close> returns in the same cases, with the same
  result and the same rule store; a classifier constructed with the filter and one
  constructed without it, given the same calls, classify every packet alike; and
  \<open>classify\<close> does return when no lock is held.
\<close>

theorem bloom_never_decides:
  "map_option fst (classify lib ts header (st\<lparr>bloom_filter := b, use_bloom_filter := u\<rparr>))
     = map_option fst (classify lib ts header st)
   \<and> map_option (\<lambda>x. rule_manager (snd x))
        (classify lib ts header (st\<lparr>bloom_filter := b, use_bloom_filter := u\<rparr>))
     = map_option (\<lambda>x. rule_manager (snd x)) (classify lib ts header st)
   \<and> map_option fst (run lib calls (PacketClassifier_new lib True) \<bind> classify lib ts header)
     = map_option fst (run lib calls (PacketClassifier_new lib False) \<bind> classify lib ts header)
   \<and> (locks_free st \<longrightarrow> classify lib ts header st \<noteq> None)"
proof (intro conjI impI)
  show "map_option fst (classify lib ts header (st\<lparr>bloom_filter := b, use_bloom_filter := u\<rparr>))
     = map_option fst (classify lib ts header st)"
    by (simp add: classify_bloom option.map_comp comp_def)
  show "map_option (\<lambda>x. rule_manager (snd x))
        (classify lib ts header (st\<lparr>bloom_filter := b, use_bloom_filter := u\<rparr>))
     = map_option (\<lambda>x. rule_manager (snd x)) (classify lib ts header st)"
    by (simp add: classify_bloom option.map_comp comp_def)
  show "map_option fst (run lib calls (PacketClassifier_new lib True) \<bind> classify lib ts header)
     = map_option fst (run lib calls (PacketClassifier_new lib False) \<bind> classify lib ts header)"
    by (simp add: run_new classify_new)
  show "classify lib ts header st \<noteq> None" if "locks_free st"
    using that by (rule classify_returns)
qed

theorem bloom_never_decides_witness:
  "locks_free w_state
   \<and> map_option fst (classify lib_stable 7 S2_packet w_state)
       = Some \<lparr>matched = True, matched_rule_id = 1, actions = ClassificationRule.actions S2_rule_A\<rparr>
   \<and> map_option fst (classify lib_stable 7 S2_packet
        (w_state\<lparr>bloom_filter := Some (BloomFilter_sized 8 2), use_bloom_filter := True\<rparr>))
       = Some \<lparr>matched = True, matched_rule_id = 1, actions = ClassificationRule.actions S2_rule_A\<rparr>"
proof -
  have f: "locks_free w_state" by code_simp
  have c: "map_option fst (classify lib_stable 7 S2_packet w_state)
       = Some \<lparr>matched = True, matched_rule_id = 1, actions = ClassificationRule.actions S2_rule_A\<rparr>"
    by code_simp
  note t = bloom_never_decides [where lib = lib_stable and ts = 7 and header = S2_packet
      and st = w_state and b = "Some (BloomFilter_sized 8 2)" and u = True and calls = "[]"]
  have "classify lib_stable 7 S2_packet w_state \<noteq> None" using t f by blast
  have "map_option fst (classify lib_stable 7 S2_packet
        (w_state\<lparr>bloom_filter := Some (BloomFilter_sized 8 2), use_bloom_filter := True\<rparr>))
       = map_option fst (classify lib_stable 7 S2_packet w_state)"
    using t by blast
  then show ?thesis using f c by simp
qed

lemma classify_loop_Some:
  "classify_loop rm ps header = Some r \<Longrightarrow>
   \<exists>p \<in> set ps. rule_at rm p = Some r \<and> enabled r \<and> matches (rule_filter r) header"
  by (induction ps) (auto split: option.splits if_splits)

lemma inverted_never_matches:
  "source_port_low f > source_port_high f \<or> dest_port_low f > dest_port_high f \<Longrightarrow>
   \<not> matches f header"
  by (auto simp: matches_def)

lemma rm_inv_rule_at:
  "rm_inv lib rm \<Longrightarrow> rule_at rm p = Some r \<Longrightarrow> rule_id r = p"
  by (auto simp: rm_inv_def rule_at_def dest!: map_of_SomeD)

text \<open>
  C9.  The claim: a rule with a port range \<open>low > high\<close> is accepted by \<open>addRule\<close>
  (\<open>addRule\<close> returns true) and can never match a packet.  \<open>addRule\<close> does not return
  true for the rule with destination ports \<open>[443, 80]\<close>: on a new classifier it does
  not return at all (the wait of C1).
\<close>

theorem addRule_inverted_range_not_accepted:
  "dest_port_high (rule_filter inverted_dest_rule) < dest_port_low (rule_filter inverted_dest_rule)
   \<and> addRule lib_stable inverted_dest_rule (PacketClassifier_new lib_stable False) = None"
  by code_simp

text \<open>
  C9, as amended.  A rule whose source or destination port range has \<open>low > high\<close>
  matches no packet, and \<open>classify\<close>, called on a well-formed rule store with no lock
  held, returns and never reports a match with the id under which such a rule is
  stored.
\<close>

theorem inverted_range_never_matches:
  assumes "source_port_low (rule_filter rule) > source_port_high (rule_filter rule)
           \<or> dest_port_low (rule_filter rule) > dest_port_high (rule_filter rule)"
  shows "\<not> matches (rule_filter rule) header
       \<and> (locks_free st \<and> rm_inv lib (rule_manager st) \<and> rule_at (rule_manager st) rid = Some rule
          \<longrightarrow> (\<exists>res st1. classify lib ts header st = Some (res, st1)
                 \<and> \<not> (matched res \<and> matched_rule_id res = rid)))"
proof (intro conjI impI)
  show nm: "\<not> matches (rule_filter rule) header"
    using assms by (rule inverted_never_matches)
  assume a: "locks_free st \<and> rm_inv lib (rule_manager st) \<and> rule_at (rule_manager st) rid = Some rule"
  then have f: "locks_free st" and inv: "rm_inv lib (rule_manager st)"
    and g: "rule_at (rule_manager st) rid = Some rule"
    by simp_all
  show "\<exists>res st1. classify lib ts header st = Some (res, st1)
          \<and> \<not> (matched res \<and> matched_rule_id res = rid)"
  proof (cases "classify_loop (rule_manager st) (rules_by_priority_cache (rule_manager st)) header")
    case None
    then show ?thesis by (simp add: classify_free [OF f])
  next
    case (Some r)
    then obtain p where p: "rule_at (rule_manager st) p = Some r" "matches (rule_filter r) header"
      using classify_loop_Some by blast
    have "rule_id r = p" by (rule rm_inv_rule_at [OF inv p(1)])
    then have "rule_id r \<noteq> rid" using p g nm by auto
    then show ?thesis using Some by (simp add: classify_free [OF f])
  qed
qed

theorem inverted_range_never_matches_witness:
  "source_port_low (rule_filter inverted_rule) > source_port_high (rule_filter inverted_rule)
   \<and> \<not> matches (rule_filter inverted_rule) S2_packet
   \<and> locks_free inverted_state
   \<and> rm_inv lib_stable (rule_manager inverted_state)
   \<and> rule_at (rule_manager inverted_state) 1 = Some inverted_rule
   \<and> classify lib_stable 7 S2_packet inverted_state
       = Some (\<lparr>matched = False, matched_rule_id = -1, actions = ActionList_default\<rparr>, inverted_state)"
proof -
  have bad: "source_port_low (rule_filter inverted_rule) > source_port_high (rule_filter inverted_rule)"
    by code_simp
  have f: "locks_free inverted_state" by code_simp
  have inv: "rm_inv lib_stable (rule_manager inverted_state)" by code_simp
  have g: "rule_at (rule_manager inverted_state) 1 = Some inverted_rule" by code_simp
  have c: "classify lib_stable 7 S2_packet inverted_state
       = Some (\<lparr>matched = False, matched_rule_id = -1, actions = ActionList_default\<rparr>, inverted_state)"
    by code_simp
  note t = inverted_range_never_matches [OF disjI1 [OF bad],
      where header = S2_packet and st = inverted_state and lib = lib_stable and rid = 1 and ts = 7]
  have nm: "\<not> matches (rule_filter inverted_rule) S2_packet"
    using t by (rule conjunct1)
  have "\<exists>res st1. classify lib_stable 7 S2_packet inverted_state = Some (res, st1)
          \<and> \<not> (matched res \<and> matched_rule_id res = 1)"
    using t f inv g by blast
  then show ?thesis
    by (intro conjI) (rule bad nm f inv g c)+
qed

end
